theory Spec2Isabelle
  imports Main "HOL-Library.AList"
begin

chapter \<open>The OCR response engine of \<^verbatim>\<open>runpod-deploy/ocr.py\<close>: the model\<close>

text \<open>
  A Python \<^verbatim>\<open>str\<close> is modelled as the list of its code points. The page selector, the
  text given to the normalizer and the deltas of the stream are \<^typ>\<open>string\<close>s, the
  strings whose code points lie below 256; the answer that the repairer reads and the
  strings of a JSON value are lists of arbitrary code points (the section on strings
  of code points). A raised exception is a value of \<open>pyerror\<close> on the left of a sum;
  \<^verbatim>\<open>json.JSONDecodeError\<close> is the subclass of \<^verbatim>\<open>ValueError\<close> that an
  \<^verbatim>\<open>except json.JSONDecodeError\<close> clause catches, \<open>ValueError\<close> stands for a \<^verbatim>\<open>ValueError\<close>
  that is not a \<^verbatim>\<open>JSONDecodeError\<close>, and \<open>RecursionError\<close> is what the interpreter raises
  when a call would exceed its recursion limit.
\<close>

datatype pyerror = ValueError | JSONDecodeError | RecursionError | AttributeError

section \<open>String methods\<close>

text \<open>
  \<^verbatim>\<open>str.strip()\<close> removes the characters for which \<^verbatim>\<open>str.isspace\<close> holds: below 256 these
  are the code points 9 to 13, 28 to 32, 133 and 160.
\<close>

definition py_isspace :: "char \<Rightarrow> bool" where
  "py_isspace c \<longleftrightarrow> (let n = (of_char c :: nat) in
     (9 \<le> n \<and> n \<le> 13) \<or> (28 \<le> n \<and> n \<le> 32) \<or> n = 133 \<or> n = 160)"

definition strip :: "string \<Rightarrow> string" where
  "strip s = rev (dropWhile py_isspace (rev (dropWhile py_isspace s)))"

text \<open>\<^verbatim>\<open>s.split(sep)\<close> for a one-character separator; the result is never empty.\<close>

fun split_on :: "'a \<Rightarrow> 'a list \<Rightarrow> 'a list list" where
  "split_on sep [] = [[]]"
| "split_on sep (c # cs) =
     (if c = sep then [] # split_on sep cs
      else (case split_on sep cs of w # ws \<Rightarrow> (c # w) # ws | [] \<Rightarrow> [[c]]))"

text \<open>\<^verbatim>\<open>sep.join(xs)\<close> and \<^verbatim>\<open>s.startswith(p)\<close>.\<close>

fun join_with :: "'a list \<Rightarrow> 'a list list \<Rightarrow> 'a list" where
  "join_with sep [] = []"
| "join_with sep [x] = x"
| "join_with sep (x # y # ys) = x @ sep @ join_with sep (y # ys)"

definition starts_with :: "'a list \<Rightarrow> 'a list \<Rightarrow> bool" where
  "starts_with s p \<longleftrightarrow> take (length p) s = p"

section \<open>Integers from strings\<close>

text \<open>
  \<^verbatim>\<open>int(s)\<close> in base 10. The argument is stripped of the white space \<^verbatim>\<open>int\<close> accepts
  (below 256: the code points 9 to 13, 32, 133 and 160; the separators 28 to 31 that
  \<^verbatim>\<open>strip\<close> removes are rejected by \<^verbatim>\<open>int\<close>), then an optional sign, then decimal
  digits, with single underscores allowed between two digits. Anything else raises
  \<^verbatim>\<open>ValueError\<close>, and so does a literal of more than \<open>int_max_str_digits\<close> digits
  (\<^verbatim>\<open>sys.int_info.default_max_str_digits\<close>, 4300, the interpreter's default since
  Python 3.11).
\<close>

definition int_space :: "char \<Rightarrow> bool" where
  "int_space c \<longleftrightarrow> (let n = (of_char c :: nat) in
     (9 \<le> n \<and> n \<le> 13) \<or> n = 32 \<or> n = 133 \<or> n = 160)"

definition is_digit :: "char \<Rightarrow> bool" where
  "is_digit c \<longleftrightarrow> (let n = (of_char c :: nat) in 48 \<le> n \<and> n \<le> 57)"

fun digits_ok :: "string \<Rightarrow> bool" where
  "digits_ok [] = False"
| "digits_ok [c] = is_digit c"
| "digits_ok (c # d # cs) =
     (is_digit c \<and> (if d = CHR ''_'' then digits_ok cs else digits_ok (d # cs)))"

definition decimal_value :: "string \<Rightarrow> nat" where
  "decimal_value ds = foldl (\<lambda>a c. 10 * a + (of_char c - 48)) 0 ds"

definition int_max_str_digits :: nat where
  "int_max_str_digits = 4300"

definition py_int :: "string \<Rightarrow> pyerror + int" where
  "py_int s =
     (let t = rev (dropWhile int_space (rev (dropWhile int_space s)));
          neg = (t \<noteq> [] \<and> hd t = CHR ''-'');
          ds = (if t \<noteq> [] \<and> (hd t = CHR ''-'' \<or> hd t = CHR ''+'') then tl t else t);
          digits = filter is_digit ds
      in if \<not> digits_ok ds then Inl ValueError
         else if int_max_str_digits < length digits then Inl ValueError
         else Inr (if neg then - int (decimal_value digits) else int (decimal_value digits)))"

section \<open>Page ranges\<close>

text \<open>
  \<^verbatim>\<open>parse_page_range(spec, total)\<close>. \<open>page_step\<close> is the body of the loop over
  \<^verbatim>\<open>spec.split(",")\<close>, \<open>pages\<close> the set it fills: a part holding a hyphen is split at its
  first hyphen (\<^verbatim>\<open>part.split("-", 1)\<close>) and adds \<^verbatim>\<open>range(start, min(end, total) + 1)\<close>, any
  other part adds its integer when \<^verbatim>\<open>1 <= p <= total\<close>. The first part that \<^verbatim>\<open>int\<close>
  rejects ends the call with its \<^verbatim>\<open>ValueError\<close>. The result is \<^verbatim>\<open>sorted(pages)\<close>.
\<close>

definition page_step :: "int \<Rightarrow> string \<Rightarrow> int set \<Rightarrow> pyerror + int set" where
  "page_step npages part0 pages =
     (let part = strip part0 in
      if CHR ''-'' \<in> set part then
        (case py_int (takeWhile (\<lambda>c. c \<noteq> CHR ''-'') part) of
           Inl e \<Rightarrow> Inl e
         | Inr start \<Rightarrow>
            (case py_int (tl (dropWhile (\<lambda>c. c \<noteq> CHR ''-'') part)) of
               Inl e \<Rightarrow> Inl e
             | Inr stop \<Rightarrow> Inr (pages \<union> set [start..min stop npages])))
      else
        (case py_int part of
           Inl e \<Rightarrow> Inl e
         | Inr p \<Rightarrow> Inr (if 1 \<le> p \<and> p \<le> npages then insert p pages else pages)))"

fun page_loop :: "int \<Rightarrow> string list \<Rightarrow> int set \<Rightarrow> pyerror + int set" where
  "page_loop npages [] pages = Inr pages"
| "page_loop npages (part # parts) pages =
     (case page_step npages part pages of
        Inl e \<Rightarrow> Inl e
      | Inr pages' \<Rightarrow> page_loop npages parts pages')"

definition parse_page_range :: "string \<Rightarrow> int \<Rightarrow> pyerror + int list" where
  "parse_page_range spec npages =
     (case page_loop npages (split_on (CHR '','') spec) {} of
        Inl e \<Rightarrow> Inl e
      | Inr pages \<Rightarrow> Inr (sorted_list_of_set pages))"

text \<open>
  The selection in \<^verbatim>\<open>main\<close>: \<^verbatim>\<open>parse_page_range(args.pages, total_pages) if args.pages else
  list(range(1, total_pages + 1))\<close>; a missing and an empty selector are both false.
\<close>

definition main_page_nums :: "string option \<Rightarrow> int \<Rightarrow> pyerror + int list" where
  "main_page_nums pages npages =
     (case pages of
        None \<Rightarrow> Inr [1..npages]
      | Some sel \<Rightarrow> if sel = [] then Inr [1..npages] else parse_page_range sel npages)"

text \<open>
  The words of the specification, token by token: a token with a hyphen stands for the
  inclusive range from its start to its end clamped to the page count, any other token
  for its page when that lies between 1 and the page count; \<open>None\<close> is a token that is
  not an integer or a pair of integers.
\<close>

definition spec_token_pages :: "int \<Rightarrow> string \<Rightarrow> int set option" where
  "spec_token_pages npages tok =
     (let t = strip tok in
      if CHR ''-'' \<in> set t then
        (case (py_int (takeWhile (\<lambda>c. c \<noteq> CHR ''-'') t),
               py_int (tl (dropWhile (\<lambda>c. c \<noteq> CHR ''-'') t))) of
           (Inr start, Inr stop) \<Rightarrow> Some {start..min stop npages}
         | _ \<Rightarrow> None)
      else
        (case py_int t of
           Inr p \<Rightarrow> Some (if 1 \<le> p \<and> p \<le> npages then {p} else {})
         | Inl _ \<Rightarrow> None))"

definition spec_token_set :: "int \<Rightarrow> string \<Rightarrow> int set" where
  "spec_token_set npages tok = (case spec_token_pages npages tok of Some S \<Rightarrow> S | None \<Rightarrow> {})"

section \<open>Fill-zone normalization\<close>

text \<open>
  \<^verbatim>\<open>_FILL_RE = re.compile(r'([.\-_])\1{3,}')\<close> and
  \<^verbatim>\<open>normalize_fill_zones(text) = _FILL_RE.sub('___', text)\<close>.

  The character class is \<open>fill_char\<close>. \<open>lead c s\<close> counts the copies of \<open>c\<close> that
  \<open>s\<close> starts with: the pattern matches at a position holding \<open>c\<close> exactly when
  \<open>c\<close> is a fill character and at least three more copies follow, and the greedy
  \<^verbatim>\<open>{3,}\<close> then takes every following copy. \<^verbatim>\<open>sub\<close> scans from the left: where the
  pattern matches it writes the replacement and goes on behind the match, elsewhere it
  copies one character and moves on.
\<close>

definition fill_char :: "char \<Rightarrow> bool" where
  "fill_char c \<longleftrightarrow> c = CHR ''.'' \<or> c = CHR ''-'' \<or> c = CHR ''_''"

definition lead :: "char \<Rightarrow> string \<Rightarrow> nat" where
  "lead c s = length (takeWhile (\<lambda>d. d = c) s)"

function normalize_fill_zones :: "string \<Rightarrow> string" where
  "normalize_fill_zones [] = []"
| "normalize_fill_zones (c # cs) =
     (if fill_char c \<and> 3 \<le> lead c cs
      then ''___'' @ normalize_fill_zones (dropWhile (\<lambda>d. d = c) cs)
      else c # normalize_fill_zones cs)"
  by pat_completeness auto
termination
  by (relation "measure length") (auto simp: less_Suc_eq_le length_dropWhile_le)

text \<open>\<open>fill_search s\<close> is \<^verbatim>\<open>_FILL_RE.search(s) is not None\<close>: the pattern matches somewhere.\<close>

fun fill_search :: "string \<Rightarrow> bool" where
  "fill_search [] = False"
| "fill_search (c # cs) = ((fill_char c \<and> 3 \<le> lead c cs) \<or> fill_search cs)"

text \<open>
  The words of the specification: a string is cut into its maximal runs of one repeated
  character (\<open>runs\<close>), and a run of four or more copies of a fill character is replaced
  by the placeholder (\<open>collapse_run\<close>).
\<close>

function runs :: "string \<Rightarrow> string list" where
  "runs [] = []"
| "runs (c # cs) = (c # takeWhile (\<lambda>d. d = c) cs) # runs (dropWhile (\<lambda>d. d = c) cs)"
  by pat_completeness auto
termination
  by (relation "measure length") (auto simp: less_Suc_eq_le length_dropWhile_le)

definition collapse_run :: "string \<Rightarrow> string" where
  "collapse_run r = (if r \<noteq> [] \<and> fill_char (hd r) \<and> 4 \<le> length r then ''___'' else r)"

definition has_fill_run :: "string \<Rightarrow> bool" where
  "has_fill_run s \<longleftrightarrow> (\<exists>r\<in>set (runs s). fill_char (hd r) \<and> 4 \<le> length r)"

text \<open>The two fill characters other than the one the placeholder is made of.\<close>

definition dot_dash :: "char \<Rightarrow> bool" where
  "dot_dash c \<longleftrightarrow> c = CHR ''.'' \<or> c = CHR ''-''"

fun dot_dash_search :: "string \<Rightarrow> bool" where
  "dot_dash_search [] = False"
| "dot_dash_search (c # cs) = ((dot_dash c \<and> 3 \<le> lead c cs) \<or> dot_dash_search cs)"


section \<open>The streamed completion\<close>

text \<open>
  The part of \<^verbatim>\<open>ocr_image_base64\<close> that consumes the stream. A chunk of the stream
  carries a list of choices; the loop reads the first one, if any, appends its
  \<^verbatim>\<open>delta.content\<close> when that is a non-empty string and keeps its \<^verbatim>\<open>finish_reason\<close> when
  that is a non-empty string (Python's truth test of an optional string). After the loop
  the warning is written to the error stream when the kept reason is \<^verbatim>\<open>"length"\<close>, and the
  joined parts are returned. The warning is modelled by its content, the token budget.
\<close>

record choice_delta =
  content :: "string option"

record stream_choice =
  delta :: choice_delta
  finish_reason :: "string option"

record stream_chunk =
  choices :: "stream_choice list"

datatype warning = Truncated int

fun stream_loop ::
  "stream_chunk list \<Rightarrow> string list \<Rightarrow> string option \<Rightarrow> string list \<times> string option" where
  "stream_loop [] parts reason = (parts, reason)"
| "stream_loop (chunk # stream) parts reason =
     (case choices chunk of
        [] \<Rightarrow> stream_loop stream parts reason
      | choice # _ \<Rightarrow>
          stream_loop stream
            (case content (delta choice) of
               Some s \<Rightarrow> if s \<noteq> [] then parts @ [s] else parts
             | None \<Rightarrow> parts)
            (case finish_reason choice of
               Some r \<Rightarrow> if r \<noteq> [] then Some r else reason
             | None \<Rightarrow> reason))"

definition ocr_image_base64 :: "int \<Rightarrow> stream_chunk list \<Rightarrow> string \<times> warning list" where
  "ocr_image_base64 max_tokens stream =
     (case stream_loop stream [] None of
        (parts, reason) \<Rightarrow>
          (concat parts, if reason = Some ''length'' then [Truncated max_tokens] else []))"

text \<open>
  The words of the specification: a stream chunk has an optional text delta and an
  optional terminal reason; the full text is the concatenation of the deltas that are
  present, and the terminal reason of the stream is the last one observed. A reason
  that is the empty string counts as absent.
\<close>

definition text_delta :: "stream_chunk \<Rightarrow> string option" where
  "text_delta chunk =
     (case choices chunk of [] \<Rightarrow> None | choice # _ \<Rightarrow> content (delta choice))"

definition terminal_reason :: "stream_chunk \<Rightarrow> string option" where
  "terminal_reason chunk =
     (case choices chunk of
        [] \<Rightarrow> None
      | choice # _ \<Rightarrow>
          (case finish_reason choice of
             None \<Rightarrow> None
           | Some r \<Rightarrow> if r = [] then None else Some r))"

definition spec_full_text :: "stream_chunk list \<Rightarrow> string" where
  "spec_full_text stream = concat (List.map_filter text_delta stream)"

definition spec_last_reason :: "stream_chunk list \<Rightarrow> string option" where
  "spec_last_reason stream =
     (case rev (List.map_filter terminal_reason stream) of [] \<Rightarrow> None | r # _ \<Rightarrow> Some r)"

definition mk_chunk :: "string option \<Rightarrow> string option \<Rightarrow> stream_chunk" where
  "mk_chunk c r = \<lparr>choices = [\<lparr>delta = \<lparr>content = c\<rparr>, finish_reason = r\<rparr>]\<rparr>"

section \<open>Strings of code points\<close>

text \<open>
  The answer of the model and the strings of a JSON value are lists of code points: a
  \<^verbatim>\<open>\u\<close> escape of JSON denotes any code point, so these strings are not confined to the
  code points below 256, whatever text they are read from. A code point is the integer
  that \<^verbatim>\<open>ord\<close> gives: \<open>cp c\<close> is \<^verbatim>\<open>ord(c)\<close>, and \<open>ustr s\<close> the string \<open>s\<close> as a list of
  code points.
\<close>

type_synonym codepoint = int

type_synonym ustring = "codepoint list"

abbreviation cp :: "char \<Rightarrow> codepoint" where
  "cp c \<equiv> of_char c"

definition ustr :: "string \<Rightarrow> ustring" where
  "ustr s = map of_char s"

text \<open>
  \<^verbatim>\<open>str.isspace\<close> on all of Unicode, and \<^verbatim>\<open>str.strip()\<close> with it: besides the code points
  below 256 these are U+1680, U+2000 to U+200A, U+2028, U+2029, U+202F, U+205F and
  U+3000.
\<close>

definition uni_isspace :: "codepoint \<Rightarrow> bool" where
  "uni_isspace n \<longleftrightarrow>
     (9 \<le> n \<and> n \<le> 13) \<or> (28 \<le> n \<and> n \<le> 32) \<or> n = 133 \<or> n = 160
     \<or> n = 0x1680 \<or> (0x2000 \<le> n \<and> n \<le> 0x200A) \<or> n = 0x2028 \<or> n = 0x2029
     \<or> n = 0x202F \<or> n = 0x205F \<or> n = 0x3000"

definition uni_strip :: "ustring \<Rightarrow> ustring" where
  "uni_strip s = rev (dropWhile uni_isspace (rev (dropWhile uni_isspace s)))"

text \<open>
  \<^verbatim>\<open>normalize_fill_zones\<close> on a list of code points, for the page loop of \<^verbatim>\<open>main\<close>, which
  applies it to the text of a decoded region. On the strings below 256 it is the
  function of the section on fill zones (\<open>uni_normalize_fill_zones_ustr\<close> below).
\<close>

definition uni_fill_char :: "codepoint \<Rightarrow> bool" where
  "uni_fill_char c \<longleftrightarrow> c = cp (CHR ''.'') \<or> c = cp (CHR ''-'') \<or> c = cp (CHR ''_'')"

function uni_normalize_fill_zones :: "ustring \<Rightarrow> ustring" where
  "uni_normalize_fill_zones [] = []"
| "uni_normalize_fill_zones (c # cs) =
     (if uni_fill_char c \<and> 3 \<le> length (takeWhile (\<lambda>d. d = c) cs)
      then ustr ''___'' @ uni_normalize_fill_zones (dropWhile (\<lambda>d. d = c) cs)
      else c # uni_normalize_fill_zones cs)"
  by pat_completeness auto
termination
  by (relation "measure length") (auto simp: less_Suc_eq_le length_dropWhile_le)

section \<open>JSON values and \<^verbatim>\<open>json.loads\<close>\<close>

text \<open>
  The values \<^verbatim>\<open>json.loads\<close> returns. A float is kept as the literal it was read from. A
  \<^verbatim>\<open>dict\<close> is the list of its items in insertion order, with distinct keys.
\<close>

datatype json =
    JNull
  | JBool bool
  | JInt int
  | JFloat ustring
  | JStr ustring
  | JArr "json list"
  | JObj "(ustring \<times> json) list"

definition dquote :: codepoint where
  "dquote = 0x22"

definition backslash :: codepoint where
  "backslash = 0x5C"

definition json_ws :: "codepoint \<Rightarrow> bool" where
  "json_ws c \<longleftrightarrow> c = 0x20 \<or> c = 0x09 \<or> c = 0x0A \<or> c = 0x0D"

definition skip_ws :: "ustring \<Rightarrow> ustring" where
  "skip_ws s = dropWhile json_ws s"

subsection \<open>String literals\<close>

text \<open>
  \<^verbatim>\<open>scanstring\<close> in strict mode, applied behind the opening quote: it returns the decoded
  string and the input behind the closing quote. A control character, an unknown
  escape, a \<^verbatim>\<open>\u\<close> escape without four hexadecimal digits and a missing closing quote
  raise \<^verbatim>\<open>JSONDecodeError\<close>. A \<^verbatim>\<open>\u\<close> escape gives the code point it names; a high
  surrogate followed by the escape of a low surrogate gives the code point of the pair,
  any other surrogate stays as it is.
\<close>

definition hex_val :: "codepoint \<Rightarrow> int option" where
  "hex_val n =
     (if 48 \<le> n \<and> n \<le> 57 then Some (n - 48)
      else if 65 \<le> n \<and> n \<le> 70 then Some (n - 55)
      else if 97 \<le> n \<and> n \<le> 102 then Some (n - 87)
      else None)"

fun decode_uXXXX :: "ustring \<Rightarrow> codepoint option" where
  "decode_uXXXX (a # b # c # d # _) =
     (case (hex_val a, hex_val b, hex_val c, hex_val d) of
        (Some h3, Some h2, Some h1, Some h0) \<Rightarrow> Some (((h3 * 16 + h2) * 16 + h1) * 16 + h0)
      | _ \<Rightarrow> None)"
| "decode_uXXXX _ = None"

definition escape_char :: "codepoint \<Rightarrow> codepoint option" where
  "escape_char e =
     (if e = dquote then Some dquote
      else if e = backslash then Some backslash
      else if e = cp (CHR ''/'') then Some (cp (CHR ''/''))
      else if e = cp (CHR ''b'') then Some 0x08
      else if e = cp (CHR ''f'') then Some 0x0C
      else if e = cp (CHR ''n'') then Some 0x0A
      else if e = cp (CHR ''r'') then Some 0x0D
      else if e = cp (CHR ''t'') then Some 0x09
      else None)"

definition cons_chr ::
  "codepoint \<Rightarrow> pyerror + ustring \<times> ustring \<Rightarrow> pyerror + ustring \<times> ustring" where
  "cons_chr c r = (case r of Inl e \<Rightarrow> Inl e | Inr (str, rest) \<Rightarrow> Inr (c # str, rest))"

function scanstring :: "ustring \<Rightarrow> pyerror + ustring \<times> ustring" where
  "scanstring [] = Inl JSONDecodeError"
| "scanstring (c # cs) =
     (if c = dquote then Inr ([], cs)
      else if c = backslash then
        (case cs of
           [] \<Rightarrow> Inl JSONDecodeError
         | e # cs' \<Rightarrow>
             if e = cp (CHR ''u'') then
               (case decode_uXXXX cs' of
                  None \<Rightarrow> Inl JSONDecodeError
                | Some uni \<Rightarrow>
                    if 0xD800 \<le> uni \<and> uni \<le> 0xDBFF
                       \<and> take 2 (drop 4 cs') = [backslash, cp (CHR ''u'')]
                    then
                      (case decode_uXXXX (drop 6 cs') of
                         None \<Rightarrow> Inl JSONDecodeError
                       | Some uni2 \<Rightarrow>
                           if 0xDC00 \<le> uni2 \<and> uni2 \<le> 0xDFFF
                           then cons_chr (0x10000 + (uni - 0xD800) * 1024 + (uni2 - 0xDC00))
                                  (scanstring (drop 10 cs'))
                           else cons_chr uni (scanstring (drop 4 cs')))
                    else cons_chr uni (scanstring (drop 4 cs')))
             else
               (case escape_char e of
                  None \<Rightarrow> Inl JSONDecodeError
                | Some d \<Rightarrow> cons_chr d (scanstring cs')))
      else if c < 0x20 then Inl JSONDecodeError
      else cons_chr c (scanstring cs))"
  by pat_completeness auto
termination
  by (relation "measure length") auto

subsection \<open>Numbers\<close>

text \<open>
  The number the scanner matches at the start of the input,
  \<^verbatim>\<open>(-?(?:0|[1-9]\d*))(\.\d+)?([eE][-+]?\d+)?\<close> with the digits 0 to 9: \<open>match_number\<close>
  returns the three groups (an absent group is empty) and the input behind the match.
  With a fraction or an exponent the number is a float, otherwise \<^verbatim>\<open>int\<close> converts the
  integer group, under the same limit on the number of digits as above.
\<close>

definition json_digit :: "codepoint \<Rightarrow> bool" where
  "json_digit n \<longleftrightarrow> 48 \<le> n \<and> n \<le> 57"

definition match_int_part :: "ustring \<Rightarrow> (ustring \<times> ustring) option" where
  "match_int_part s =
     (case s of
        [] \<Rightarrow> None
      | c # cs \<Rightarrow>
          if c = cp (CHR ''0'') then Some ([c], cs)
          else if json_digit c then Some (takeWhile json_digit s, dropWhile json_digit s)
          else None)"

definition match_frac :: "ustring \<Rightarrow> ustring \<times> ustring" where
  "match_frac s =
     (case s of
        c # d # ds \<Rightarrow>
          if c = cp (CHR ''.'') \<and> json_digit d
          then (c # takeWhile json_digit (d # ds), dropWhile json_digit (d # ds))
          else ([], s)
      | _ \<Rightarrow> ([], s))"

definition match_exp :: "ustring \<Rightarrow> ustring \<times> ustring" where
  "match_exp s =
     (case s of
        c # cs \<Rightarrow>
          if c = cp (CHR ''e'') \<or> c = cp (CHR ''E'') then
            (let sgn = (if cs \<noteq> [] \<and> (hd cs = cp (CHR ''-'') \<or> hd cs = cp (CHR ''+''))
                        then [hd cs] else []);
                 ds = drop (length sgn) cs
             in if ds \<noteq> [] \<and> json_digit (hd ds)
                then (c # sgn @ takeWhile json_digit ds, dropWhile json_digit ds)
                else ([], s))
          else ([], s)
      | [] \<Rightarrow> ([], s))"

definition match_number :: "ustring \<Rightarrow> (ustring \<times> ustring \<times> ustring \<times> ustring) option" where
  "match_number s =
     (let sgn = (if s \<noteq> [] \<and> hd s = cp (CHR ''-'') then [cp (CHR ''-'')] else []) in
      case match_int_part (drop (length sgn) s) of
        None \<Rightarrow> None
      | Some (ip, r1) \<Rightarrow>
          (let (frac, r2) = match_frac r1; (ex, r3) = match_exp r2
           in Some (sgn @ ip, frac, ex, r3)))"

definition literal_value :: "ustring \<Rightarrow> int" where
  "literal_value ds = foldl (\<lambda>a c. 10 * a + (c - 48)) 0 ds"

definition py_int_literal :: "ustring \<Rightarrow> pyerror + int" where
  "py_int_literal lit =
     (let digits = filter json_digit lit in
      if int_max_str_digits < length digits then Inl ValueError
      else Inr (if lit \<noteq> [] \<and> hd lit = cp (CHR ''-'') then - literal_value digits
                else literal_value digits))"

subsection \<open>Values\<close>

text \<open>
  \<^verbatim>\<open>dict(pairs)\<close>: a later pair with a key seen before replaces the value and keeps the
  place of the key.
\<close>

definition dict_of_pairs :: "(ustring \<times> json) list \<Rightarrow> (ustring \<times> json) list" where
  "dict_of_pairs pairs = foldl (\<lambda>d (k, v). AList.update k v d) [] pairs"

lemma skip_ws_length: "length (skip_ws s) \<le> length s"
  by (simp add: skip_ws_def length_dropWhile_le)

lemma skip_ws_Cons_length: "skip_ws s = d # r \<Longrightarrow> length r < length s"
  using skip_ws_length[of s] by simp

lemma cons_chr_Inr:
  "cons_chr c x = Inr (str, r) \<longleftrightarrow> (\<exists>str'. x = Inr (str', r) \<and> str = c # str')"
  by (auto simp: cons_chr_def split: sum.splits)

lemma scanstring_length: "scanstring s = Inr (str, r) \<Longrightarrow> length r < length s"
proof (induction s arbitrary: str rule: scanstring.induct)
  case 1
  then show ?case by simp
next
  case (2 c cs)
  show ?case
    using "2.prems" "2.IH"
    by (fastforce simp: cons_chr_Inr split: if_splits list.splits option.splits)
qed

text \<open>
  \<^verbatim>\<open>scan_once\<close> reads one value at the start of the input and returns it with the input
  behind it; \<open>JSONArray\<close> and \<open>JSONObject\<close> are the loops of the decoder over the items
  of an array (entered at an item) and of an object (entered behind the opening quote
  of a key), with the items read so far. Running out of input and a character that
  fits nowhere raise \<^verbatim>\<open>JSONDecodeError\<close>.

  The scanner enters a recursive call of the interpreter at every opening bracket and
  brace, before it reads on. \<open>depth\<close> is the number of such calls that the recursion
  limit of the interpreter still allows where \<^verbatim>\<open>json.loads\<close> is called (the limit is
  \<^verbatim>\<open>sys.getrecursionlimit()\<close>, 1000 unless changed, less the depth of the call stack): an
  array or object nested deeper raises \<^verbatim>\<open>RecursionError\<close>.

  The two tests \<open>length r < length s\<close> on what \<open>scan_once\<close> returns always hold
  (\<open>scan_shorter\<close> below): they serve the termination proof.
\<close>

function scan_once :: "nat \<Rightarrow> ustring \<Rightarrow> pyerror + json \<times> ustring"
  and JSONArray :: "nat \<Rightarrow> ustring \<Rightarrow> json list \<Rightarrow> pyerror + json \<times> ustring"
  and JSONObject :: "nat \<Rightarrow> ustring \<Rightarrow> (ustring \<times> json) list \<Rightarrow> pyerror + json \<times> ustring"
where
  "scan_once depth s =
     (case s of
        [] \<Rightarrow> Inl JSONDecodeError
      | c # cs \<Rightarrow>
          if c = dquote then
            (case scanstring cs of Inl e \<Rightarrow> Inl e | Inr (str, r) \<Rightarrow> Inr (JStr str, r))
          else if c = cp (CHR ''{'') then
            (if depth = 0 then Inl RecursionError
             else
               (case skip_ws cs of
                  [] \<Rightarrow> Inl JSONDecodeError
                | d # r \<Rightarrow>
                    if d = cp (CHR ''}'') then Inr (JObj [], r)
                    else if d = dquote then JSONObject (depth - 1) r []
                    else Inl JSONDecodeError))
          else if c = cp (CHR ''['') then
            (if depth = 0 then Inl RecursionError
             else
               (case skip_ws cs of
                  [] \<Rightarrow> Inl JSONDecodeError
                | d # r \<Rightarrow>
                    if d = cp (CHR '']'') then Inr (JArr [], r)
                    else JSONArray (depth - 1) (d # r) []))
          else if starts_with s (ustr ''null'') then Inr (JNull, drop 4 s)
          else if starts_with s (ustr ''true'') then Inr (JBool True, drop 4 s)
          else if starts_with s (ustr ''false'') then Inr (JBool False, drop 5 s)
          else
            (case match_number s of
               Some (integer, frac, ex, r) \<Rightarrow>
                 if frac \<noteq> [] \<or> ex \<noteq> [] then Inr (JFloat (integer @ frac @ ex), r)
                 else (case py_int_literal integer of Inl e \<Rightarrow> Inl e | Inr i \<Rightarrow> Inr (JInt i, r))
             | None \<Rightarrow>
                 if starts_with s (ustr ''NaN'') then Inr (JFloat (ustr ''NaN''), drop 3 s)
                 else if starts_with s (ustr ''Infinity'')
                   then Inr (JFloat (ustr ''Infinity''), drop 8 s)
                 else if starts_with s (ustr ''-Infinity'')
                   then Inr (JFloat (ustr ''-Infinity''), drop 9 s)
                 else Inl JSONDecodeError))"
| "JSONArray depth s values =
     (case scan_once depth s of
        Inl e \<Rightarrow> Inl e
      | Inr (v, r) \<Rightarrow>
          if length r < length s then
            (case skip_ws r of
               [] \<Rightarrow> Inl JSONDecodeError
             | d # r' \<Rightarrow>
                 if d = cp (CHR '']'') then Inr (JArr (values @ [v]), r')
                 else if d = cp (CHR '','') then JSONArray depth (skip_ws r') (values @ [v])
                 else Inl JSONDecodeError)
          else Inl JSONDecodeError)"
| "JSONObject depth s pairs =
     (case scanstring s of
        Inl e \<Rightarrow> Inl e
      | Inr (key, r) \<Rightarrow>
          (case skip_ws r of
             [] \<Rightarrow> Inl JSONDecodeError
           | d # r1 \<Rightarrow>
               if d \<noteq> cp (CHR '':'') then Inl JSONDecodeError
               else
                 (case scan_once depth (skip_ws r1) of
                    Inl e \<Rightarrow> Inl e
                  | Inr (v, r2) \<Rightarrow>
                      if length r2 < length (skip_ws r1) then
                        (case skip_ws r2 of
                           [] \<Rightarrow> Inl JSONDecodeError
                         | d2 # r3 \<Rightarrow>
                             if d2 = cp (CHR ''}'') then
                               Inr (JObj (dict_of_pairs (pairs @ [(key, v)])), r3)
                             else if d2 = cp (CHR '','') then
                               (case skip_ws r3 of
                                  [] \<Rightarrow> Inl JSONDecodeError
                                | d3 # r4 \<Rightarrow>
                                    if d3 = dquote then JSONObject depth r4 (pairs @ [(key, v)])
                                    else Inl JSONDecodeError)
                             else Inl JSONDecodeError)
                      else Inl JSONDecodeError)))"
  by pat_completeness auto
termination
proof (relation "measure (\<lambda>x. case x of
          Inl (_, s) \<Rightarrow> 2 * length s
        | Inr (Inl (_, s, _)) \<Rightarrow> 2 * length s + 1
        | Inr (Inr (_, s, _)) \<Rightarrow> 2 * length s + 1)", goal_cases)
  case 1
  show ?case by simp
next
  case (2 depth s c cs d r)
  then show ?case by (auto dest: skip_ws_Cons_length)
next
  case (3 depth s c cs d r)
  then show ?case using skip_ws_length[of cs] by auto
next
  case (4 depth s "values")
  show ?case by simp
next
  case (5 depth s "values" x v r d r')
  then show ?case using skip_ws_length[of r'] by (auto dest: skip_ws_Cons_length)
next
  case (6 depth s pairs x key r d r1)
  then show ?case
    using skip_ws_length[of r1] by (auto dest!: skip_ws_Cons_length scanstring_length)
next
  case (7 depth s pairs x key r d r1 y v r2 d2 r3 d3 r4)
  then show ?case
    using skip_ws_length[of r1] by (auto dest!: skip_ws_Cons_length scanstring_length)
qed

declare scan_once.simps [simp del] JSONArray.simps [simp del] JSONObject.simps [simp del]

text \<open>
  \<^verbatim>\<open>json.loads(s)\<close>: a text that starts with the byte order mark U+FEFF is refused;
  otherwise white space, one value, white space, and nothing behind it
  (\<^verbatim>\<open>Extra data\<close> otherwise).
\<close>

definition json_loads :: "nat \<Rightarrow> ustring \<Rightarrow> pyerror + json" where
  "json_loads depth s =
     (if starts_with s [0xFEFF] then Inl JSONDecodeError
      else
        (case scan_once depth (skip_ws s) of
           Inl e \<Rightarrow> Inl e
         | Inr (v, r) \<Rightarrow> if skip_ws r = [] then Inr v else Inl JSONDecodeError))"

section \<open>The repair of the model's answer\<close>

text \<open>
  \<^verbatim>\<open>parse_bbox_response(raw)\<close>, with the depth of nesting that the interpreter allows to
  its calls of \<^verbatim>\<open>json.loads\<close>. \<open>strip_fences\<close> is its first part: the text is stripped,
  and when it starts with three backquotes its first line is dropped, and its last
  line too when that is a bare fence. \<open>re_search_array\<close> is
  \<^verbatim>\<open>re.search(r"\[.*\]", text, re.DOTALL)\<close>: the match runs from the first opening bracket to
  the last closing bracket behind it. \<open>fallback\<close> is the last \<^verbatim>\<open>return\<close>.
\<close>

definition strip_fences :: "ustring \<Rightarrow> ustring" where
  "strip_fences raw =
     (let text = uni_strip raw in
      if starts_with text (ustr ''```'') then
        (let lines = tl (split_on 0x0A text);
             lines = (if lines \<noteq> [] \<and> uni_strip (last lines) = ustr ''```''
                      then butlast lines else lines)
         in join_with [0x0A] lines)
      else text)"

definition re_search_array :: "ustring \<Rightarrow> ustring option" where
  "re_search_array text =
     (let m = rev (dropWhile (\<lambda>c. c \<noteq> cp (CHR '']''))
                (rev (dropWhile (\<lambda>c. c \<noteq> cp (CHR ''['')) text)))
      in if m = [] then None else Some m)"

definition fallback :: "ustring \<Rightarrow> json" where
  "fallback raw =
     JArr [JObj [(ustr ''text'', JStr raw), (ustr ''bbox'', JNull),
                 (ustr ''parse_error'', JBool True)]]"

text \<open>
  The inner \<^verbatim>\<open>try\<close>: \<^verbatim>\<open>json.loads(inner)\<close> is returned when it is a list; when it is
  something else, or raises \<^verbatim>\<open>JSONDecodeError\<close>, the function goes on to return \<open>data\<close>.
  Any other exception leaves the function.
\<close>

definition loads_inner :: "nat \<Rightarrow> ustring \<Rightarrow> json \<Rightarrow> pyerror + json" where
  "loads_inner depth inner data =
     (case json_loads depth inner of
        Inr parsed \<Rightarrow> (case parsed of JArr _ \<Rightarrow> Inr parsed | _ \<Rightarrow> Inr data)
      | Inl e \<Rightarrow> if e = JSONDecodeError then Inr data else Inl e)"

definition parse_bbox_response :: "nat \<Rightarrow> ustring \<Rightarrow> pyerror + json" where
  "parse_bbox_response depth raw =
     (let text = strip_fences raw in
      case json_loads depth text of
        Inr data \<Rightarrow>
          (case data of
             JArr xs \<Rightarrow>
               (case xs of
                  [JObj d] \<Rightarrow>
                    (case (map_of d (ustr ''text''), map_of d (ustr ''bbox'')) of
                       (Some (JStr inner), None) \<Rightarrow> loads_inner depth inner data
                     | _ \<Rightarrow> Inr data)
                | _ \<Rightarrow> Inr data)
           | JObj d \<Rightarrow>
               (case map_of d (ustr ''text'') of
                  Some (JArr inner) \<Rightarrow> Inr (JArr inner)
                | Some (JStr inner) \<Rightarrow> loads_inner depth inner (JArr [data])
                | _ \<Rightarrow> Inr (JArr [data]))
           | _ \<Rightarrow> Inr (JArr [data]))
      | Inl e \<Rightarrow>
          if e = JSONDecodeError then
            (case re_search_array text of
               Some m \<Rightarrow>
                 (case json_loads depth m of
                    Inr v \<Rightarrow> Inr v
                  | Inl e' \<Rightarrow> if e' = JSONDecodeError then Inr (fallback raw) else Inl e')
             | None \<Rightarrow> Inr (fallback raw))
          else Inl e)"

text \<open>
  The words of the specification. \<open>yields_list\<close>: the parsed value is a list, or an
  object whose \<^verbatim>\<open>text\<close> field is a list or a string that parses to a list.
  \<open>spec_bracket_strategy\<close>: steps 3 and 4 of the chain, the bracket-delimited substring
  returned if it parses to a list, the verbatim fallback otherwise. \<open>valid_chunk\<close>: an
  object with a string \<^verbatim>\<open>text\<close> and a \<^verbatim>\<open>bbox\<close> that is absent, null or four numbers.
\<close>

definition yields_list :: "nat \<Rightarrow> json \<Rightarrow> bool" where
  "yields_list depth data =
     (case data of
        JArr _ \<Rightarrow> True
      | JObj d \<Rightarrow>
          (case map_of d (ustr ''text'') of
             Some (JArr _) \<Rightarrow> True
           | Some (JStr inner) \<Rightarrow>
               (case json_loads depth inner of Inr (JArr _) \<Rightarrow> True | _ \<Rightarrow> False)
           | _ \<Rightarrow> False)
      | _ \<Rightarrow> False)"

definition spec_bracket_strategy :: "nat \<Rightarrow> ustring \<Rightarrow> ustring \<Rightarrow> pyerror + json" where
  "spec_bracket_strategy depth raw text =
     (case re_search_array text of
        Some m \<Rightarrow>
          (case json_loads depth m of Inr (JArr xs) \<Rightarrow> Inr (JArr xs) | _ \<Rightarrow> Inr (fallback raw))
      | None \<Rightarrow> Inr (fallback raw))"

text \<open>
  An object that holds no list for the repairer to unwrap: it has no \<^verbatim>\<open>text\<close> field, or
  that field is neither a list nor a string, or it is a string that \<^verbatim>\<open>json.loads\<close> rejects
  as JSON or decodes to something that is not a list.
\<close>

definition holds_no_list :: "nat \<Rightarrow> (ustring \<times> json) list \<Rightarrow> bool" where
  "holds_no_list depth d =
     (case map_of d (ustr ''text'') of
        None \<Rightarrow> True
      | Some (JArr _) \<Rightarrow> False
      | Some (JStr inner) \<Rightarrow>
          (case json_loads depth inner of
             Inr (JArr _) \<Rightarrow> False
           | Inr _ \<Rightarrow> True
           | Inl e \<Rightarrow> e = JSONDecodeError)
      | Some _ \<Rightarrow> True)"

definition is_number :: "json \<Rightarrow> bool" where
  "is_number j = (case j of JInt _ \<Rightarrow> True | JFloat _ \<Rightarrow> True | _ \<Rightarrow> False)"

definition valid_chunk :: "json \<Rightarrow> bool" where
  "valid_chunk j =
     (case j of
        JObj d \<Rightarrow>
          (case map_of d (ustr ''text'') of Some (JStr _) \<Rightarrow> True | _ \<Rightarrow> False)
          \<and> (case map_of d (ustr ''bbox'') of
                None \<Rightarrow> True
              | Some JNull \<Rightarrow> True
              | Some (JArr b) \<Rightarrow> length b = 4 \<and> list_all is_number b
              | _ \<Rightarrow> False)
      | _ \<Rightarrow> False)"

definition has_bbox :: "json \<Rightarrow> bool" where
  "has_bbox j = (case j of JObj d \<Rightarrow> map_of d (ustr ''bbox'') \<noteq> None | _ \<Rightarrow> False)"

definition flagged :: "json \<Rightarrow> bool" where
  "flagged j =
     (case j of JObj d \<Rightarrow> map_of d (ustr ''parse_error'') = Some (JBool True) | _ \<Rightarrow> False)"

section \<open>The page loop and the JSON document of \<^verbatim>\<open>main\<close>\<close>

text \<open>
  For the \<^verbatim>\<open>json\<close> format, \<^verbatim>\<open>main\<close> repairs the answer for each page, normalizes the
  \<^verbatim>\<open>text\<close> of every region that has a string there (\<^verbatim>\<open>r.get("text")\<close>, which only a
  \<^verbatim>\<open>dict\<close> has: any other region raises \<^verbatim>\<open>AttributeError\<close>), and appends
  \<^verbatim>\<open>{"source": label, "regions": regions}\<close> to \<^verbatim>\<open>all_json_results\<close>.
\<close>

definition normalize_region :: "json \<Rightarrow> pyerror + json" where
  "normalize_region r =
     (case r of
        JObj d \<Rightarrow>
          (case map_of d (ustr ''text'') of
             Some (JStr t) \<Rightarrow>
               Inr (JObj (AList.update (ustr ''text'') (JStr (uni_normalize_fill_zones t)) d))
           | _ \<Rightarrow> Inr r)
      | _ \<Rightarrow> Inl AttributeError)"

fun normalize_regions :: "json list \<Rightarrow> pyerror + json list" where
  "normalize_regions [] = Inr []"
| "normalize_regions (r # rs) =
     (case normalize_region r of
        Inl e \<Rightarrow> Inl e
      | Inr r' \<Rightarrow> (case normalize_regions rs of Inl e \<Rightarrow> Inl e | Inr rs' \<Rightarrow> Inr (r' # rs')))"

record page_result =
  source :: ustring
  regions :: "json list"

text \<open>
  The last case below is never taken: what \<open>parse_bbox_response\<close> returns is a list
  (\<open>parse_bbox_response_is_list\<close>).
\<close>

definition json_page :: "nat \<Rightarrow> ustring \<Rightarrow> ustring \<Rightarrow> pyerror + page_result" where
  "json_page depth label raw =
     (case parse_bbox_response depth raw of
        Inl e \<Rightarrow> Inl e
      | Inr (JArr rs) \<Rightarrow>
          (case normalize_regions rs of
             Inl e \<Rightarrow> Inl e
           | Inr rs' \<Rightarrow> Inr \<lparr>source = label, regions = rs'\<rparr>)
      | Inr _ \<Rightarrow> Inl AttributeError)"

text \<open>
  The output for the \<^verbatim>\<open>json\<close> format: \<^verbatim>\<open>json.dumps\<close> of the regions of the only result,
  or of the whole list of results. \<^verbatim>\<open>json.dumps(_, indent=2, ensure_ascii=False)\<close> is the
  parameter \<open>dumps\<close>.
\<close>

definition page_json :: "page_result \<Rightarrow> json" where
  "page_json r = JObj [(ustr ''source'', JStr (source r)), (ustr ''regions'', JArr (regions r))]"

definition json_document :: "page_result list \<Rightarrow> json" where
  "json_document all_json_results =
     (if length all_json_results = 1 then JArr (regions (all_json_results ! 0))
      else JArr (map page_json all_json_results))"

definition main_json_output :: "(json \<Rightarrow> ustring) \<Rightarrow> page_result list \<Rightarrow> ustring" where
  "main_json_output dumps all_json_results = dumps (json_document all_json_results)"

chapter \<open>Properties\<close>

section \<open>Fill-zone normalization\<close>

lemma lead_Nil [simp]: "lead c [] = 0"
  by (simp add: lead_def)

lemma lead_Cons [simp]: "lead c (d # s) = (if d = c then Suc (lead c s) else 0)"
  by (simp add: lead_def)

lemma lead_dropWhile: "lead c s + length (dropWhile (\<lambda>d. d = c) s) = length s"
  unfolding lead_def by (induction s) auto

lemma lead_dropWhile_self [simp]: "lead c (dropWhile (\<lambda>d. d = c) cs) = 0"
  by (induction cs) auto

lemma normalize_length: "length (normalize_fill_zones s) \<le> length s"
proof (induction s rule: normalize_fill_zones.induct)
  case 1
  show ?case by simp
next
  case (2 c cs)
  show ?case
  proof (cases "fill_char c \<and> 3 \<le> lead c cs")
    case True
    with 2 have "length (normalize_fill_zones (dropWhile (\<lambda>d. d = c) cs))
        \<le> length (dropWhile (\<lambda>d. d = c) cs)"
      by simp
    moreover have "lead c cs + length (dropWhile (\<lambda>d. d = c) cs) = length cs"
      by (rule lead_dropWhile)
    ultimately show ?thesis using True by simp
  next
    case False
    with 2 show ?thesis by auto
  qed
qed

subsection \<open>The runs of a string\<close>

lemma concat_runs: "concat (runs s) = s"
  by (induction s rule: runs.induct) simp_all

lemma runs_const: "r \<in> set (runs s) \<Longrightarrow> r \<noteq> [] \<and> (\<forall>x\<in>set r. x = hd r)"
proof (induction s rule: runs.induct)
  case 1
  then show ?case by simp
next
  case (2 c cs)
  from "2.prems" consider "r = c # takeWhile (\<lambda>d. d = c) cs"
    | "r \<in> set (runs (dropWhile (\<lambda>d. d = c) cs))"
    by auto
  then show ?case
  proof cases
    case 1
    have "\<forall>x\<in>set (takeWhile (\<lambda>d. d = c) cs). x = c"
      using set_takeWhileD[of _ "\<lambda>d. d = c" cs] by blast
    with 1 show ?thesis by simp
  next
    case 2
    then show ?thesis by (rule "2.IH")
  qed
qed

lemma dropWhile_eq_Cons_neq: "dropWhile (\<lambda>d. d = c) cs = e # es \<Longrightarrow> e \<noteq> c"
  using hd_dropWhile[of "\<lambda>d. d = c" cs] by auto

lemma runs_maximal: "distinct_adj (map hd (runs s))"
proof (induction s rule: runs.induct)
  case 1
  show ?case by simp
next
  case (2 c cs)
  show ?case
  proof (cases "dropWhile (\<lambda>d. d = c) cs")
    case Nil
    have "runs (c # cs) = [c # takeWhile (\<lambda>d. d = c) cs]"
      by (simp only: runs.simps Nil)
    then show ?thesis by simp
  next
    case (Cons e es)
    from dropWhile_eq_Cons_neq[OF Cons] have "e \<noteq> c" .
    moreover have "runs (c # cs) = (c # takeWhile (\<lambda>d. d = c) cs)
        # (e # takeWhile (\<lambda>d. d = e) es) # runs (dropWhile (\<lambda>d. d = e) es)"
      by (simp only: runs.simps Cons)
    moreover from 2 have "distinct_adj (map hd (runs (e # es)))"
      by (simp only: Cons)
    ultimately show ?thesis by (simp add: distinct_adj_Cons)
  qed
qed

subsection \<open>One pass, run by run\<close>

lemma normalize_short_run:
  "\<not> (fill_char c \<and> 3 \<le> lead c cs) \<Longrightarrow>
   normalize_fill_zones (c # cs)
     = (c # takeWhile (\<lambda>d. d = c) cs) @ normalize_fill_zones (dropWhile (\<lambda>d. d = c) cs)"
proof (induction cs)
  case Nil
  then show ?case by simp
next
  case (Cons d ds)
  show ?case
  proof (cases "d = c")
    case True
    with Cons.prems have short: "\<not> (fill_char c \<and> 3 \<le> lead c ds)" by auto
    from Cons.prems True have c1: "\<not> (fill_char c \<and> 3 \<le> lead c (c # ds))" by simp
    have step: "normalize_fill_zones (c # c # ds) = c # normalize_fill_zones (c # ds)"
      using c1 by (simp only: normalize_fill_zones.simps(2)[of c "c # ds"] if_False)
    show ?thesis unfolding True step Cons.IH[OF short] by simp
  next
    case False
    with Cons.prems show ?thesis by simp
  qed
qed

lemma normalize_runs: "normalize_fill_zones s = concat (map collapse_run (runs s))"
proof (induction s rule: runs.induct)
  case 1
  show ?case by simp
next
  case (2 c cs)
  show ?case
  proof (cases "fill_char c \<and> 3 \<le> lead c cs")
    case True
    then have "collapse_run (c # takeWhile (\<lambda>d. d = c) cs) = ''___''"
      by (simp add: collapse_run_def lead_def)
    with True 2 show ?thesis by simp
  next
    case False
    then have "collapse_run (c # takeWhile (\<lambda>d. d = c) cs) = c # takeWhile (\<lambda>d. d = c) cs"
      by (auto simp add: collapse_run_def lead_def)
    with normalize_short_run[OF False] 2 show ?thesis by simp
  qed
qed

subsection \<open>The fixed points of one pass\<close>

lemma no_search_fixed: "\<not> fill_search s \<Longrightarrow> normalize_fill_zones s = s"
  by (induction s) auto

lemma search_shrinks: "fill_search s \<Longrightarrow> length (normalize_fill_zones s) < length s"
proof (induction s rule: normalize_fill_zones.induct)
  case 1
  then show ?case by simp
next
  case (2 c cs)
  show ?case
  proof (cases "fill_char c \<and> 3 \<le> lead c cs")
    case True
    have "length (normalize_fill_zones (dropWhile (\<lambda>d. d = c) cs))
        \<le> length (dropWhile (\<lambda>d. d = c) cs)"
      by (rule normalize_length)
    moreover have "lead c cs + length (dropWhile (\<lambda>d. d = c) cs) = length cs"
      by (rule lead_dropWhile)
    ultimately show ?thesis using True by simp
  next
    case False
    with 2 show ?thesis by auto
  qed
qed

lemma fixed_iff_no_search: "normalize_fill_zones s = s \<longleftrightarrow> \<not> fill_search s"
  using no_search_fixed search_shrinks by (metis less_irrefl)

lemma fill_search_skip_run:
  "fill_search (c # cs)
     \<longleftrightarrow> (fill_char c \<and> 3 \<le> lead c cs) \<or> fill_search (dropWhile (\<lambda>d. d = c) cs)"
  by (induction cs) auto

lemma fill_search_runs: "fill_search s \<longleftrightarrow> has_fill_run s"
proof (induction s rule: runs.induct)
  case 1
  show ?case by (simp add: has_fill_run_def)
next
  case (2 c cs)
  have "has_fill_run (c # cs)
      \<longleftrightarrow> (fill_char c \<and> 3 \<le> lead c cs) \<or> has_fill_run (dropWhile (\<lambda>d. d = c) cs)"
    by (auto simp: has_fill_run_def lead_def)
  with 2 fill_search_skip_run[of c cs] show ?case by simp
qed

subsection \<open>A second pass reaches a fixed point\<close>

lemma lead_normalize_le: "c \<noteq> CHR ''_'' \<Longrightarrow> lead c (normalize_fill_zones s) \<le> lead c s"
  by (induction s) auto

lemma dot_dash_search_dropWhile:
  "\<not> dot_dash_search cs \<Longrightarrow> \<not> dot_dash_search (dropWhile P cs)"
  by (induction cs) auto

lemma fill_char_cases: "fill_char c \<longleftrightarrow> dot_dash c \<or> c = CHR ''_''"
  by (auto simp: fill_char_def dot_dash_def)

lemma dot_dash_not_underscore: "dot_dash c \<Longrightarrow> c \<noteq> CHR ''_''"
  by (auto simp: dot_dash_def)

lemma no_dot_dash_after_pass: "\<not> dot_dash_search (normalize_fill_zones s)"
proof (induction s rule: normalize_fill_zones.induct)
  case 1
  show ?case by simp
next
  case (2 c cs)
  show ?case
  proof (cases "fill_char c \<and> 3 \<le> lead c cs")
    case True
    with 2 show ?thesis by (simp add: dot_dash_def)
  next
    case False
    have "\<not> (dot_dash c \<and> 3 \<le> lead c (normalize_fill_zones cs))"
    proof
      assume a: "dot_dash c \<and> 3 \<le> lead c (normalize_fill_zones cs)"
      then have "c \<noteq> CHR ''_''" by (simp add: dot_dash_not_underscore)
      from lead_normalize_le[OF this, of cs] a have "3 \<le> lead c cs" by simp
      with a False show False by (simp add: fill_char_cases)
    qed
    moreover from False have "normalize_fill_zones (c # cs) = c # normalize_fill_zones cs"
      by auto
    moreover from "2.IH"(2)[OF False] have "\<not> dot_dash_search (normalize_fill_zones cs)" .
    ultimately show ?thesis by simp
  qed
qed

lemma lead_underscore_normalize:
  "\<not> dot_dash_search u \<Longrightarrow>
   lead (CHR ''_'') (normalize_fill_zones u) = min 3 (lead (CHR ''_'') u)"
proof (induction u rule: normalize_fill_zones.induct)
  case 1
  show ?case by simp
next
  case (2 c cs)
  from "2.prems" have nd: "\<not> (dot_dash c \<and> 3 \<le> lead c cs)"
    and ncs: "\<not> dot_dash_search cs"
    by simp_all
  show ?case
  proof (cases "fill_char c \<and> 3 \<le> lead c cs")
    case True
    with nd have c: "c = CHR ''_''" by (auto simp: fill_char_cases)
    from ncs have "\<not> dot_dash_search (dropWhile (\<lambda>d. d = c) cs)"
      by (rule dot_dash_search_dropWhile)
    with "2.IH"(1)[OF True]
    have "lead (CHR ''_'') (normalize_fill_zones (dropWhile (\<lambda>d. d = c) cs)) = 0"
      unfolding c by simp
    with True c show ?thesis by simp
  next
    case False
    from "2.IH"(2)[OF False ncs] False show ?thesis by (auto simp: fill_char_def)
  qed
qed

lemma no_search_after_second_pass:
  "\<not> dot_dash_search u \<Longrightarrow> \<not> fill_search (normalize_fill_zones u)"
proof (induction u rule: normalize_fill_zones.induct)
  case 1
  show ?case by simp
next
  case (2 c cs)
  from "2.prems" have nd: "\<not> (dot_dash c \<and> 3 \<le> lead c cs)"
    and ncs: "\<not> dot_dash_search cs"
    by simp_all
  show ?case
  proof (cases "fill_char c \<and> 3 \<le> lead c cs")
    case True
    with nd have c: "c = CHR ''_''" by (auto simp: fill_char_cases)
    from ncs have nr: "\<not> dot_dash_search (dropWhile (\<lambda>d. d = c) cs)"
      by (rule dot_dash_search_dropWhile)
    from lead_underscore_normalize[OF nr]
    have "lead (CHR ''_'') (normalize_fill_zones (dropWhile (\<lambda>d. d = c) cs)) = 0"
      unfolding c by simp
    moreover from "2.IH"(1)[OF True nr]
    have "\<not> fill_search (normalize_fill_zones (dropWhile (\<lambda>d. d = c) cs))" .
    ultimately show ?thesis using True c by simp
  next
    case False
    from "2.IH"(2)[OF False ncs] have ih: "\<not> fill_search (normalize_fill_zones cs)" .
    have "\<not> (fill_char c \<and> 3 \<le> lead c (normalize_fill_zones cs))"
    proof (cases "c = CHR ''_''")
      case True
      with lead_underscore_normalize[OF ncs] False show ?thesis
        by (auto simp: fill_char_def)
    next
      case neq: False
      from lead_normalize_le[OF neq, of cs] False show ?thesis by auto
    qed
    moreover from False have "normalize_fill_zones (c # cs) = c # normalize_fill_zones cs"
      by auto
    ultimately show ?thesis using ih by simp
  qed
qed

lemma second_pass_no_search:
  "\<not> fill_search (normalize_fill_zones (normalize_fill_zones s))"
  by (rule no_search_after_second_pass) (rule no_dot_dash_after_pass)

subsection \<open>The claims about the normalizer\<close>

text \<open>
  Claim C7. For every string, the normalizer replaces each maximal run of four or more
  copies of one character of \<open>.\<close>, \<open>-\<close>, \<open>_\<close> by the three-character placeholder and
  keeps every other run; a string with no such run is returned unchanged; and the form
  line \<^verbatim>\<open>Name...........: John\<close> becomes \<^verbatim>\<open>Name___: John\<close>. (\<open>concat_runs\<close>,
  \<open>runs_const\<close> and \<open>runs_maximal\<close> say that \<open>runs\<close> is the cut into maximal runs.)
\<close>

theorem normalize_collapses_fill_runs:
  "normalize_fill_zones s = concat (map collapse_run (runs s))
   \<and> (\<not> has_fill_run s \<longrightarrow> normalize_fill_zones s = s)
   \<and> normalize_fill_zones ''Name...........: John'' = ''Name___: John''"
proof (intro conjI)
  show "normalize_fill_zones s = concat (map collapse_run (runs s))"
    by (rule normalize_runs)
  show "\<not> has_fill_run s \<longrightarrow> normalize_fill_zones s = s"
    using no_search_fixed[of s] by (simp add: fill_search_runs)
  show "normalize_fill_zones ''Name...........: John'' = ''Name___: John''"
    by (simp add: fill_char_def)
qed

theorem normalize_collapses_fill_runs_witness:
  "\<not> has_fill_run ''a...b--c'' \<and> normalize_fill_zones ''a...b--c'' = ''a...b--c''
   \<and> normalize_fill_zones ''a....b--c'' = concat (map collapse_run (runs ''a....b--c''))
   \<and> concat (map collapse_run (runs ''a....b--c'')) = ''a___b--c''"
proof -
  have h: "\<not> has_fill_run ''a...b--c''"
    by (simp add: has_fill_run_def fill_char_def)
  have c: "concat (map collapse_run (runs ''a....b--c'')) = ''a___b--c''"
    by (simp add: collapse_run_def fill_char_def)
  from normalize_collapses_fill_runs[of "''a...b--c''"] h
    normalize_collapses_fill_runs[of "''a....b--c''"] c
  show ?thesis by blast
qed

text \<open>
  Claim C10. The normalizer never lengthens its input: the result is at most as long
  as the argument.
\<close>

theorem normalize_never_longer: "length (normalize_fill_zones s) \<le> length s"
  by (rule normalize_length)

text \<open>
  Claim C6, as stated: \<open>normalize (normalize s) = normalize s\<close> for every \<open>s\<close>. It fails
  where a collapsed run comes to stand beside an underscore or beside another collapsed
  run: \<^verbatim>\<open>....----\<close> becomes six underscores, and those become three in a second pass.
\<close>

theorem normalize_not_idempotent:
  "normalize_fill_zones (normalize_fill_zones ''....----'') \<noteq> normalize_fill_zones ''....----''"
  by (simp add: fill_char_def)

text \<open>
  Claim C6, amended. A second pass changes nothing exactly when the first pass left no
  run of four or more copies of a fill character, and in every case the second pass
  reaches a fixed point: a third pass changes nothing.
\<close>

theorem normalize_fixed_after_second_pass:
  "(normalize_fill_zones (normalize_fill_zones s) = normalize_fill_zones s
      \<longleftrightarrow> \<not> has_fill_run (normalize_fill_zones s))
   \<and> normalize_fill_zones (normalize_fill_zones (normalize_fill_zones s))
       = normalize_fill_zones (normalize_fill_zones s)"
proof
  show "normalize_fill_zones (normalize_fill_zones s) = normalize_fill_zones s
      \<longleftrightarrow> \<not> has_fill_run (normalize_fill_zones s)"
    by (simp add: fixed_iff_no_search fill_search_runs)
  show "normalize_fill_zones (normalize_fill_zones (normalize_fill_zones s))
       = normalize_fill_zones (normalize_fill_zones s)"
    by (rule no_search_fixed) (rule second_pass_no_search)
qed

theorem normalize_fixed_after_second_pass_witness:
  "\<not> has_fill_run (normalize_fill_zones ''Name......: ----'')
   \<and> normalize_fill_zones (normalize_fill_zones ''Name......: ----'')
       = normalize_fill_zones ''Name......: ----''
   \<and> has_fill_run (normalize_fill_zones ''....----'')
   \<and> normalize_fill_zones (normalize_fill_zones (normalize_fill_zones ''....----''))
       = normalize_fill_zones (normalize_fill_zones ''....----'')"
proof -
  have a: "\<not> has_fill_run (normalize_fill_zones ''Name......: ----'')"
    by (simp add: has_fill_run_def fill_char_def)
  have b: "has_fill_run (normalize_fill_zones ''....----'')"
    by (simp add: has_fill_run_def fill_char_def)
  from normalize_fixed_after_second_pass[of "''Name......: ----''"] a
    normalize_fixed_after_second_pass[of "''....----''"] b
  show ?thesis by blast
qed

section \<open>Page ranges\<close>

lemma py_int_error: "py_int s = Inl e \<Longrightarrow> e = ValueError"
  by (auto simp: py_int_def Let_def split: if_splits)

lemma page_step_spec:
  "page_step npages tok pages =
     (case spec_token_pages npages tok of
        None \<Rightarrow> Inl ValueError
      | Some S \<Rightarrow> Inr (pages \<union> S))"
  by (auto simp: page_step_def spec_token_pages_def Let_def
      split: sum.splits dest: py_int_error)

lemma page_loop_spec:
  "page_loop npages toks pages =
     (if \<forall>tok\<in>set toks. spec_token_pages npages tok \<noteq> None
      then Inr (pages \<union> (\<Union>tok\<in>set toks. spec_token_set npages tok))
      else Inl ValueError)"
proof (induction toks arbitrary: pages)
  case Nil
  show ?case by simp
next
  case (Cons tok toks)
  show ?case
  proof (cases "spec_token_pages npages tok")
    case None
    then show ?thesis by (simp add: page_step_spec)
  next
    case (Some S)
    then show ?thesis
      by (simp add: page_step_spec Cons.IH spec_token_set_def Un_assoc)
  qed
qed

lemma finite_spec_token_set: "finite (spec_token_set npages tok)"
  by (auto simp: spec_token_set_def spec_token_pages_def Let_def
      split: option.splits sum.splits if_splits)

lemma parse_page_range_spec:
  "parse_page_range sel npages =
     (if \<forall>tok\<in>set (split_on (CHR '','') sel). spec_token_pages npages tok \<noteq> None
      then Inr (sorted_list_of_set
                  (\<Union>tok\<in>set (split_on (CHR '','') sel). spec_token_set npages tok))
      else Inl ValueError)"
  by (simp add: parse_page_range_def page_loop_spec)

text \<open>The start of a range is read from a string without a hyphen, so it is not negative.\<close>

lemma py_int_nonneg: "CHR ''-'' \<notin> set s \<Longrightarrow> py_int s = Inr v \<Longrightarrow> 0 \<le> v"
proof -
  assume a: "CHR ''-'' \<notin> set s" and b: "py_int s = Inr v"
  let ?t = "rev (dropWhile int_space (rev (dropWhile int_space s)))"
  have "set ?t \<subseteq> set s"
    using set_dropWhileD[of _ int_space "rev (dropWhile int_space s)"]
      set_dropWhileD[of _ int_space s] by auto
  with a have "CHR ''-'' \<notin> set ?t" by blast
  then have "\<not> (?t \<noteq> [] \<and> hd ?t = CHR ''-'')"
    using hd_in_set[of ?t] by metis
  with b show ?thesis
    by (simp add: py_int_def Let_def split: if_splits)
qed

lemma spec_token_set_bounds: "p \<in> spec_token_set npages tok \<Longrightarrow> 0 \<le> p \<and> p \<le> npages"
proof -
  assume p: "p \<in> spec_token_set npages tok"
  let ?t = "strip tok"
  show ?thesis
  proof (cases "CHR ''-'' \<in> set ?t")
    case True
    from p True obtain start stop where
      s: "py_int (takeWhile (\<lambda>c. c \<noteq> CHR ''-'') ?t) = Inr start" and
      r: "p \<in> {start..min stop npages}"
      by (auto simp: spec_token_set_def spec_token_pages_def Let_def
          split: sum.splits option.splits)
    have "CHR ''-'' \<notin> set (takeWhile (\<lambda>c. c \<noteq> CHR ''-'') ?t)"
      using set_takeWhileD[of "CHR ''-''" "\<lambda>c. c \<noteq> CHR ''-''" ?t] by blast
    from py_int_nonneg[OF this s] r show ?thesis by simp
  next
    case False
    with p show ?thesis
      by (auto simp: spec_token_set_def spec_token_pages_def Let_def
          split: sum.splits option.splits if_splits)
  qed
qed

text \<open>
  What holds of every selection the resolver returns: it is ascending without
  duplicates, and its pages lie between 0 and the page count.
\<close>

lemma parse_page_range_bounds:
  assumes "parse_page_range sel npages = Inr ps"
  shows "sorted ps \<and> distinct ps \<and> (\<forall>p\<in>set ps. 0 \<le> p \<and> p \<le> npages)"
proof -
  let ?U = "\<Union>tok\<in>set (split_on (CHR '','') sel). spec_token_set npages tok"
  have fin: "finite ?U" by (simp add: finite_spec_token_set)
  from assms have ps: "ps = sorted_list_of_set ?U"
    by (simp add: parse_page_range_spec split: if_splits)
  have "\<forall>p\<in>?U. 0 \<le> p \<and> p \<le> npages" using spec_token_set_bounds by blast
  with fin ps show ?thesis by simp
qed

lemma parse_page_range_examples:
  "parse_page_range ''2,4,7-9'' 10 = Inr [2, 4, 7, 8, 9]"
  "parse_page_range ''1-5'' 3 = Inr [1, 2, 3]"
  "parse_page_range ''2,2,1-3'' 5 = Inr [1, 2, 3]"
  by code_simp+

text \<open>
  Claim C4. The resolver splits the selector on commas. When every token is an
  integer or a pair of integers around a hyphen, the result is the ascending,
  duplicate-free list of the pages the tokens stand for: the inclusive range from the
  start to the end clamped to the page count for a hyphenated token, the page itself
  when it lies between 1 and the page count for a plain one. Otherwise the resolver
  fails with a \<^verbatim>\<open>ValueError\<close>. Without a selector the selection is the full range from 1
  to the page count. The three examples evaluate as the specification says.
\<close>

theorem page_range_resolver:
  "(if \<forall>tok\<in>set (split_on (CHR '','') sel). spec_token_pages npages tok \<noteq> None
    then \<exists>ps. parse_page_range sel npages = Inr ps \<and> sorted ps \<and> distinct ps
           \<and> set ps = (\<Union>tok\<in>set (split_on (CHR '','') sel). spec_token_set npages tok)
    else parse_page_range sel npages = Inl ValueError)
   \<and> main_page_nums None npages = Inr [1..npages]
   \<and> parse_page_range ''2,4,7-9'' 10 = Inr [2, 4, 7, 8, 9]
   \<and> parse_page_range ''1-5'' 3 = Inr [1, 2, 3]
   \<and> parse_page_range ''2,2,1-3'' 5 = Inr [1, 2, 3]"
proof -
  let ?U = "\<Union>tok\<in>set (split_on (CHR '','') sel). spec_token_set npages tok"
  have fin: "finite ?U" by (simp add: finite_spec_token_set)
  then have "sorted (sorted_list_of_set ?U) \<and> distinct (sorted_list_of_set ?U)
      \<and> set (sorted_list_of_set ?U) = ?U"
    by simp
  then have "if \<forall>tok\<in>set (split_on (CHR '','') sel). spec_token_pages npages tok \<noteq> None
    then \<exists>ps. parse_page_range sel npages = Inr ps \<and> sorted ps \<and> distinct ps \<and> set ps = ?U
    else parse_page_range sel npages = Inl ValueError"
    by (simp add: parse_page_range_spec)
  moreover have "main_page_nums None npages = Inr [1..npages]"
    by (simp add: main_page_nums_def)
  ultimately show ?thesis using parse_page_range_examples by blast
qed

theorem page_range_resolver_witness:
  "list_all (\<lambda>tok. spec_token_pages 10 tok \<noteq> None) (split_on (CHR '','') ''2,4,7-9'')
   \<and> (\<exists>ps. parse_page_range ''2,4,7-9'' 10 = Inr ps \<and> sorted ps \<and> distinct ps
         \<and> set ps = (\<Union>tok\<in>set (split_on (CHR '','') ''2,4,7-9''). spec_token_set 10 tok))
   \<and> \<not> list_all (\<lambda>tok. spec_token_pages 10 tok \<noteq> None) (split_on (CHR '','') ''1,x'')
   \<and> parse_page_range ''1,x'' 10 = Inl ValueError"
proof -
  have h: "\<forall>tok\<in>set (split_on (CHR '','') ''2,4,7-9''). spec_token_pages 10 tok \<noteq> None"
    by code_simp
  have n: "\<not> (\<forall>tok\<in>set (split_on (CHR '','') ''1,x''). spec_token_pages 10 tok \<noteq> None)"
    by code_simp
  from page_range_resolver[of "''2,4,7-9''" 10]
  have "if \<forall>tok\<in>set (split_on (CHR '','') ''2,4,7-9''). spec_token_pages 10 tok \<noteq> None
    then \<exists>ps. parse_page_range ''2,4,7-9'' 10 = Inr ps \<and> sorted ps \<and> distinct ps
         \<and> set ps = (\<Union>tok\<in>set (split_on (CHR '','') ''2,4,7-9''). spec_token_set 10 tok)
    else parse_page_range ''2,4,7-9'' 10 = Inl ValueError"
    by (rule conjunct1)
  then have a: "\<exists>ps. parse_page_range ''2,4,7-9'' 10 = Inr ps \<and> sorted ps \<and> distinct ps
         \<and> set ps = (\<Union>tok\<in>set (split_on (CHR '','') ''2,4,7-9''). spec_token_set 10 tok)"
    unfolding if_P[OF h] .
  from page_range_resolver[of "''1,x''" 10]
  have "if \<forall>tok\<in>set (split_on (CHR '','') ''1,x''). spec_token_pages 10 tok \<noteq> None
    then \<exists>ps. parse_page_range ''1,x'' 10 = Inr ps \<and> sorted ps \<and> distinct ps
         \<and> set ps = (\<Union>tok\<in>set (split_on (CHR '','') ''1,x''). spec_token_set 10 tok)
    else parse_page_range ''1,x'' 10 = Inl ValueError"
    by (rule conjunct1)
  then have b: "parse_page_range ''1,x'' 10 = Inl ValueError"
    unfolding if_not_P[OF n] .
  from h a n b show ?thesis unfolding list_all_iff by blast
qed

text \<open>
  Claim C5 says that every returned selection lies within 1 and the page count. The
  branch for a single page tests \<^verbatim>\<open>1 <= p <= total\<close>, the branch for a range clamps its
  end and leaves its start as it is: the selector \<^verbatim>\<open>0-2\<close> on a document of five pages
  returns the page 0.
\<close>

theorem parse_page_range_returns_page_zero:
  "parse_page_range ''0-2'' 5 = Inr [0, 1, 2]"
  by code_simp

section \<open>The streamed completion\<close>

lemma spec_last_reason_Cons:
  "spec_last_reason (chunk # stream) =
     (case spec_last_reason stream of None \<Rightarrow> terminal_reason chunk | Some r \<Rightarrow> Some r)"
  by (auto simp: spec_last_reason_def List.map_filter_simps split: option.splits list.splits)

lemma stream_loop_spec:
  "stream_loop stream parts reason =
     (parts @ filter (\<lambda>s. s \<noteq> []) (List.map_filter text_delta stream),
      case spec_last_reason stream of None \<Rightarrow> reason | Some r \<Rightarrow> Some r)"
proof (induction stream arbitrary: parts reason)
  case Nil
  show ?case by (simp add: spec_last_reason_def List.map_filter_simps)
next
  case (Cons chunk stream)
  show ?case
    unfolding spec_last_reason_Cons
    by (auto simp: Cons.IH text_delta_def terminal_reason_def List.map_filter_simps
        split: list.splits option.splits)
qed

lemma concat_filter_nonempty: "concat (filter (\<lambda>s. s \<noteq> []) xs) = concat xs"
  by (induction xs) auto

text \<open>
  Claim C8. For every finite stream the aggregator returns the concatenation of the
  text deltas that are present, in the order of arrival, and it emits the truncation
  warning exactly when the last terminal reason observed is \<^verbatim>\<open>"length"\<close>: a stream whose
  last reason is \<^verbatim>\<open>"stop"\<close>, or that shows no reason at all, gives no warning and no error.
\<close>

theorem stream_aggregation:
  "ocr_image_base64 max_tokens stream =
     (spec_full_text stream,
      if spec_last_reason stream = Some ''length'' then [Truncated max_tokens] else [])"
  by (auto simp: ocr_image_base64_def stream_loop_spec spec_full_text_def
      concat_filter_nonempty split: option.splits)

theorem stream_aggregation_witness:
  "spec_last_reason [mk_chunk (Some ''ab'') None, \<lparr>choices = []\<rparr>,
       mk_chunk (Some ''c'') (Some ''stop'')] = Some ''stop''
   \<and> ocr_image_base64 8192 [mk_chunk (Some ''ab'') None, \<lparr>choices = []\<rparr>,
       mk_chunk (Some ''c'') (Some ''stop'')] = (''abc'', [])
   \<and> spec_last_reason [mk_chunk (Some ''ab'') None, mk_chunk (Some ''c'') None] = None
   \<and> ocr_image_base64 8192 [mk_chunk (Some ''ab'') None, mk_chunk (Some ''c'') None]
       = (''abc'', [])
   \<and> spec_last_reason [mk_chunk (Some ''a'') None, mk_chunk (Some ''bc'') (Some ''length'')]
       = Some ''length''
   \<and> ocr_image_base64 8192 [mk_chunk (Some ''a'') None, mk_chunk (Some ''bc'') (Some ''length'')]
       = (''abc'', [Truncated 8192])"
proof -
  let ?s1 = "[mk_chunk (Some ''ab'') None, \<lparr>choices = []\<rparr>, mk_chunk (Some ''c'') (Some ''stop'')]"
  let ?s2 = "[mk_chunk (Some ''ab'') None, mk_chunk (Some ''c'') None]"
  let ?s3 = "[mk_chunk (Some ''a'') None, mk_chunk (Some ''bc'') (Some ''length'')]"
  have r1: "spec_last_reason ?s1 = Some ''stop''"
    by (simp add: spec_last_reason_def terminal_reason_def mk_chunk_def List.map_filter_simps)
  have r2: "spec_last_reason ?s2 = None"
    by (simp add: spec_last_reason_def terminal_reason_def mk_chunk_def List.map_filter_simps)
  have r3: "spec_last_reason ?s3 = Some ''length''"
    by (simp add: spec_last_reason_def terminal_reason_def mk_chunk_def List.map_filter_simps)
  have t1: "spec_full_text ?s1 = ''abc''"
    by (simp add: spec_full_text_def text_delta_def mk_chunk_def List.map_filter_simps)
  have t2: "spec_full_text ?s2 = ''abc''"
    by (simp add: spec_full_text_def text_delta_def mk_chunk_def List.map_filter_simps)
  have t3: "spec_full_text ?s3 = ''abc''"
    by (simp add: spec_full_text_def text_delta_def mk_chunk_def List.map_filter_simps)
  show ?thesis
    using stream_aggregation[of 8192 ?s1] stream_aggregation[of 8192 ?s2]
      stream_aggregation[of 8192 ?s3]
    by (simp add: r1 r2 r3 t1 t2 t3)
qed

section \<open>\<^verbatim>\<open>json.loads\<close>\<close>

subsection \<open>Every value read consumes input\<close>

lemma match_int_part_length: "match_int_part s = Some (ip, r) \<Longrightarrow> length r < length s"
  by (auto simp: match_int_part_def less_Suc_eq_le length_dropWhile_le
      split: list.splits if_splits)

lemma length_dropWhile_le_Suc:
  "length (dropWhile P xs) \<le> Suc (length xs)"
  "length (dropWhile P xs) \<le> Suc (Suc (length xs))"
  "length (dropWhile P (drop n xs)) \<le> Suc (length xs)"
  using length_dropWhile_le[of P xs] length_dropWhile_le[of P "drop n xs"] by simp_all

lemma match_frac_length: "match_frac s = (f, r) \<Longrightarrow> length r \<le> length s"
  by (auto simp: match_frac_def length_dropWhile_le_Suc split: list.splits if_splits)

lemma match_exp_length: "match_exp s = (e, r) \<Longrightarrow> length r \<le> length s"
  by (auto simp: match_exp_def Let_def length_dropWhile_le_Suc split: list.splits if_splits)

lemma match_number_length: "match_number s = Some (i, f, e, r) \<Longrightarrow> length r < length s"
proof -
  assume a: "match_number s = Some (i, f, e, r)"
  define sgn where "sgn = (if s \<noteq> [] \<and> hd s = cp (CHR ''-'') then [cp (CHR ''-'')] else [])"
  from a obtain ip r1 where ip: "match_int_part (drop (length sgn) s) = Some (ip, r1)"
    by (auto simp: match_number_def Let_def sgn_def split: option.splits)
  obtain f' r2 where f: "match_frac r1 = (f', r2)" by (cases "match_frac r1")
  obtain e' r3 where e: "match_exp r2 = (e', r3)" by (cases "match_exp r2")
  from a ip f e have "r = r3"
    by (auto simp: match_number_def Let_def sgn_def split: option.splits if_splits)
  moreover from match_int_part_length[OF ip] have "length r1 < length s" by simp
  moreover note match_frac_length[OF f] match_exp_length[OF e]
  ultimately show ?thesis by simp
qed

lemma starts_with_length: "starts_with s p \<Longrightarrow> length p \<le> length s"
  by (metis starts_with_def length_take min.cobounded1 min.commute)

lemma scan_shorter:
  "\<forall>v r. scan_once depth s = Inr (v, r) \<longrightarrow> length r < length s"
  "\<forall>v r. JSONArray depth1 s1 vs = Inr (v, r) \<longrightarrow> length r < length s1"
  "\<forall>v r. JSONObject depth2 s2 ps = Inr (v, r) \<longrightarrow> length r < length s2"
proof (induction depth s and depth1 s1 vs and depth2 s2 ps
    rule: scan_once_JSONArray_JSONObject.induct)
  case (1 depth s)
  show ?case
  proof (intro allI impI)
    fix v r
    assume a0: "scan_once depth s = Inr (v, r)"
    note a = a0[unfolded scan_once.simps[of depth s]]
    show "length r < length s"
    proof (cases s)
      case Nil
      with a show ?thesis by simp
    next
      case (Cons c cs)
      consider (str) "c = dquote"
        | (obj) "c \<noteq> dquote" "c = cp (CHR ''{'')"
        | (arr) "c \<noteq> dquote" "c \<noteq> cp (CHR ''{'')" "c = cp (CHR ''['')"
        | (other) "c \<noteq> dquote" "c \<noteq> cp (CHR ''{'')" "c \<noteq> cp (CHR ''['')"
        by blast
      then show ?thesis
      proof cases
        case str
        with a Cons show ?thesis
          by (auto split: sum.splits dest: scanstring_length)
      next
        case obj
        show ?thesis
        proof (cases "depth = 0")
          case True
          with a Cons obj show ?thesis by simp
        next
          case nz: False
          show ?thesis
          proof (cases "skip_ws cs")
            case Nil
            with a Cons obj nz show ?thesis by simp
          next
            case (Cons d r0)
            note sk = this
            from skip_ws_Cons_length[OF sk] have l: "length r0 < length cs" .
            show ?thesis
            proof (cases "d = cp (CHR ''}'')")
              case True
              with a \<open>s = c # cs\<close> obj nz sk l show ?thesis by simp
            next
              case False
              show ?thesis
              proof (cases "d = dquote")
                case True
                with a \<open>s = c # cs\<close> obj nz sk False
                have "JSONObject (depth - 1) r0 [] = Inr (v, r)"
                  by simp
                with "1.IH"(1)[OF \<open>s = c # cs\<close> obj(1) obj(2) nz sk False True]
                have "length r < length r0" by blast
                with l \<open>s = c # cs\<close> show ?thesis by simp
              next
                case nq: False
                with a \<open>s = c # cs\<close> obj nz sk False show ?thesis by simp
              qed
            qed
          qed
        qed
      next
        case arr
        show ?thesis
        proof (cases "depth = 0")
          case True
          with a Cons arr show ?thesis by simp
        next
          case nz: False
          show ?thesis
          proof (cases "skip_ws cs")
            case Nil
            with a Cons arr nz show ?thesis by simp
          next
            case (Cons d r0)
            note sk = this
            from skip_ws_Cons_length[OF sk] have l: "length r0 < length cs" .
            show ?thesis
            proof (cases "d = cp (CHR '']'')")
              case True
              with a \<open>s = c # cs\<close> arr nz sk l show ?thesis by simp
            next
              case False
              with a \<open>s = c # cs\<close> arr nz sk
              have "JSONArray (depth - 1) (d # r0) [] = Inr (v, r)"
                by simp
              with "1.IH"(2)[OF \<open>s = c # cs\<close> arr(1) arr(2) arr(3) nz sk False]
              have "length r < length (d # r0)" by blast
              with l \<open>s = c # cs\<close> show ?thesis by simp
            qed
          qed
        qed
      next
        case other
        with a Cons show ?thesis
          by (auto split: if_splits option.splits sum.splits
              dest!: starts_with_length match_number_length)
      qed
    qed
  qed
next
  case (2 depth s "values")
  show ?case
  proof (intro allI impI)
    fix v r
    assume a: "JSONArray depth s values = Inr (v, r)"
    then obtain v0 r0 where s0: "scan_once depth s = Inr (v0, r0)"
      and l0: "length r0 < length s"
      by (auto simp: JSONArray.simps[of depth s "values"] split: sum.splits if_splits)
    from a s0 l0 obtain d r' where sk: "skip_ws r0 = d # r'"
      by (auto simp: JSONArray.simps[of depth s "values"] split: list.splits)
    from skip_ws_Cons_length[OF sk] have l1: "length r' < length r0" .
    show "length r < length s"
    proof (cases "d = cp (CHR '']'')")
      case True
      with a s0 l0 sk l1 show ?thesis by (simp add: JSONArray.simps[of depth s "values"])
    next
      case False
      show ?thesis
      proof (cases "d = cp (CHR '','')")
        case True
        with a s0 l0 sk False
        have "JSONArray depth (skip_ws r') (values @ [v0]) = Inr (v, r)"
          by (simp add: JSONArray.simps[of depth s "values"])
        with "2.IH"(2)[OF s0 refl l0 sk False True]
        have "length r < length (skip_ws r')" by blast
        with skip_ws_length[of r'] l1 l0 show ?thesis by simp
      next
        case nc: False
        with a s0 l0 sk False show ?thesis
          by (simp add: JSONArray.simps[of depth s "values"])
      qed
    qed
  qed
next
  case (3 depth s pairs)
  show ?case
  proof (intro allI impI)
    fix v r
    assume a: "JSONObject depth s pairs = Inr (v, r)"
    then obtain key r0 where s0: "scanstring s = Inr (key, r0)"
      by (auto simp: JSONObject.simps[of depth s pairs] split: sum.splits)
    from scanstring_length[OF s0] have l0: "length r0 < length s" .
    from a s0 obtain d r1 where sk: "skip_ws r0 = d # r1"
      by (auto simp: JSONObject.simps[of depth s pairs] split: list.splits)
    from skip_ws_Cons_length[OF sk] have l1: "length r1 < length r0" .
    from a s0 sk have d: "\<not> d \<noteq> cp (CHR '':'')"
      by (auto simp: JSONObject.simps[of depth s pairs] split: if_splits)
    from a s0 sk d obtain v0 r2 where s1: "scan_once depth (skip_ws r1) = Inr (v0, r2)"
      and l2: "length r2 < length (skip_ws r1)"
      by (auto simp: JSONObject.simps[of depth s pairs] split: sum.splits if_splits)
    from a s0 sk d s1 l2 obtain d2 r3 where sk2: "skip_ws r2 = d2 # r3"
      by (auto simp: JSONObject.simps[of depth s pairs] split: list.splits)
    from skip_ws_Cons_length[OF sk2] have l3: "length r3 < length r2" .
    have chain: "length r3 < length s"
      using l3 l2 skip_ws_length[of r1] l1 l0 by simp
    show "length r < length s"
    proof (cases "d2 = cp (CHR ''}'')")
      case True
      with a s0 sk d s1 l2 sk2 chain show ?thesis
        by (simp add: JSONObject.simps[of depth s pairs])
    next
      case False
      show ?thesis
      proof (cases "d2 = cp (CHR '','')")
        case True
        with a s0 sk d s1 l2 sk2 False obtain d3 r4 where sk3: "skip_ws r3 = d3 # r4"
          by (auto simp: JSONObject.simps[of depth s pairs] split: list.splits)
        from skip_ws_Cons_length[OF sk3] have l4: "length r4 < length r3" .
        from a s0 sk d s1 l2 sk2 False True sk3 have dq: "d3 = dquote"
          by (auto simp: JSONObject.simps[of depth s pairs] split: if_splits)
        with a s0 sk d s1 l2 sk2 False True sk3
        have "JSONObject depth r4 (pairs @ [(key, v0)]) = Inr (v, r)"
          by (simp add: JSONObject.simps[of depth s pairs])
        with "3.IH"(2)[OF s0 refl sk d s1 refl l2 sk2 False True sk3 dq]
        have "length r < length r4" by blast
        with l4 chain show ?thesis by simp
      next
        case nc: False
        with a s0 sk d s1 l2 sk2 False show ?thesis
          by (simp add: JSONObject.simps[of depth s pairs])
      qed
    qed
  qed
qed

subsection \<open>The exceptions of the decoder\<close>

lemma cons_chr_Inl: "cons_chr c x = Inl e \<longleftrightarrow> x = Inl e"
  by (auto simp: cons_chr_def split: sum.splits)

lemma scanstring_error: "scanstring s = Inl e \<Longrightarrow> e = JSONDecodeError"
proof (induction s rule: scanstring.induct)
  case 1
  then show ?case by simp
next
  case (2 c cs)
  show ?case
    using "2.prems" "2.IH"
    by (auto simp: cons_chr_Inl split: if_splits list.splits option.splits)
qed

lemma py_int_literal_error: "py_int_literal lit = Inl e \<Longrightarrow> e = ValueError"
  by (auto simp: py_int_literal_def Let_def split: if_splits)

text \<open>
  The decoder raises three exceptions: the decode error, the \<^verbatim>\<open>ValueError\<close> of an integer
  literal beyond the limit of digits, and the \<^verbatim>\<open>RecursionError\<close> of a nesting deeper than
  the interpreter allows.
\<close>

definition decoder_error :: "pyerror \<Rightarrow> bool" where
  "decoder_error e \<longleftrightarrow> e = JSONDecodeError \<or> e = ValueError \<or> e = RecursionError"

lemma scan_errors:
  "\<forall>e. scan_once depth s = Inl e \<longrightarrow> decoder_error e"
  "\<forall>e. JSONArray depth1 s1 vs = Inl e \<longrightarrow> decoder_error e"
  "\<forall>e. JSONObject depth2 s2 ps = Inl e \<longrightarrow> decoder_error e"
proof (induction depth s and depth1 s1 vs and depth2 s2 ps
    rule: scan_once_JSONArray_JSONObject.induct)
  case (1 depth s)
  show ?case
  proof (intro allI impI)
    fix e
    assume a0: "scan_once depth s = Inl e"
    note a = a0[unfolded scan_once.simps[of depth s]]
    show "decoder_error e"
    proof (cases s)
      case Nil
      with a show ?thesis by (simp add: decoder_error_def)
    next
      case (Cons c cs)
      consider (str) "c = dquote"
        | (obj) "c \<noteq> dquote" "c = cp (CHR ''{'')"
        | (arr) "c \<noteq> dquote" "c \<noteq> cp (CHR ''{'')" "c = cp (CHR ''['')"
        | (other) "c \<noteq> dquote" "c \<noteq> cp (CHR ''{'')" "c \<noteq> cp (CHR ''['')"
        by blast
      then show ?thesis
      proof cases
        case str
        with a Cons show ?thesis
          by (auto simp: decoder_error_def split: sum.splits dest: scanstring_error)
      next
        case obj
        show ?thesis
        proof (cases "depth = 0")
          case True
          with a Cons obj show ?thesis by (simp add: decoder_error_def)
        next
          case nz: False
          show ?thesis
          proof (cases "skip_ws cs")
            case Nil
            with a Cons obj nz show ?thesis by (simp add: decoder_error_def)
          next
            case (Cons d r0)
            note sk = this
            show ?thesis
            proof (cases "d = cp (CHR ''}'')")
              case True
              with a \<open>s = c # cs\<close> obj nz sk show ?thesis by simp
            next
              case False
              show ?thesis
              proof (cases "d = dquote")
                case True
                with a \<open>s = c # cs\<close> obj nz sk False
                have "JSONObject (depth - 1) r0 [] = Inl e" by simp
                with "1.IH"(1)[OF \<open>s = c # cs\<close> obj(1) obj(2) nz sk False True]
                show ?thesis by blast
              next
                case nq: False
                with a \<open>s = c # cs\<close> obj nz sk False show ?thesis
                  by (simp add: decoder_error_def)
              qed
            qed
          qed
        qed
      next
        case arr
        show ?thesis
        proof (cases "depth = 0")
          case True
          with a Cons arr show ?thesis by (simp add: decoder_error_def)
        next
          case nz: False
          show ?thesis
          proof (cases "skip_ws cs")
            case Nil
            with a Cons arr nz show ?thesis by (simp add: decoder_error_def)
          next
            case (Cons d r0)
            note sk = this
            show ?thesis
            proof (cases "d = cp (CHR '']'')")
              case True
              with a \<open>s = c # cs\<close> arr nz sk show ?thesis by simp
            next
              case False
              with a \<open>s = c # cs\<close> arr nz sk
              have "JSONArray (depth - 1) (d # r0) [] = Inl e" by simp
              with "1.IH"(2)[OF \<open>s = c # cs\<close> arr(1) arr(2) arr(3) nz sk False]
              show ?thesis by blast
            qed
          qed
        qed
      next
        case other
        with a Cons show ?thesis
          by (auto simp: decoder_error_def split: if_splits option.splits sum.splits
              dest: py_int_literal_error)
      qed
    qed
  qed
next
  case (2 depth s "values")
  show ?case
  proof (intro allI impI)
    fix e
    assume a0: "JSONArray depth s values = Inl e"
    note a = a0[unfolded JSONArray.simps[of depth s "values"]]
    show "decoder_error e"
    proof (cases "scan_once depth s")
      case (Inl e')
      with a "2.IH"(1) show ?thesis by simp
    next
      case (Inr p)
      then obtain v0 r0 where s0: "scan_once depth s = Inr (v0, r0)" by (cases p) auto
      show ?thesis
      proof (cases "length r0 < length s")
        case False
        with a s0 show ?thesis by (simp add: decoder_error_def)
      next
        case l0: True
        show ?thesis
        proof (cases "skip_ws r0")
          case Nil
          with a s0 l0 show ?thesis by (simp add: decoder_error_def)
        next
          case (Cons d r')
          show ?thesis
          proof (cases "d \<noteq> cp (CHR '']'') \<and> d = cp (CHR '','')")
            case True
            with a s0 l0 Cons
            have "JSONArray depth (skip_ws r') (values @ [v0]) = Inl e" by simp
            with "2.IH"(2)[OF s0 refl l0 Cons] True show ?thesis by blast
          next
            case False
            with a s0 l0 Cons show ?thesis
              by (auto simp: decoder_error_def split: if_splits)
          qed
        qed
      qed
    qed
  qed
next
  case (3 depth s pairs)
  show ?case
  proof (intro allI impI)
    fix e
    assume a0: "JSONObject depth s pairs = Inl e"
    note a = a0[unfolded JSONObject.simps[of depth s pairs]]
    show "decoder_error e"
    proof (cases "scanstring s")
      case (Inl e')
      with a scanstring_error[OF Inl] show ?thesis by (simp add: decoder_error_def)
    next
      case (Inr p)
      then obtain key r0 where s0: "scanstring s = Inr (key, r0)" by (cases p) auto
      show ?thesis
      proof (cases "skip_ws r0")
        case Nil
        with a s0 show ?thesis by (simp add: decoder_error_def)
      next
        case (Cons d r1)
        note sk = this
        show ?thesis
        proof (cases "d \<noteq> cp (CHR '':'')")
          case True
          with a s0 sk show ?thesis by (simp add: decoder_error_def)
        next
          case d: False
          show ?thesis
          proof (cases "scan_once depth (skip_ws r1)")
            case (Inl e')
            with a s0 sk d "3.IH"(1)[OF s0 refl sk d] show ?thesis by simp
          next
            case (Inr q)
            then obtain v0 r2 where s1: "scan_once depth (skip_ws r1) = Inr (v0, r2)"
              by (cases q) auto
            show ?thesis
            proof (cases "length r2 < length (skip_ws r1)")
              case False
              with a s0 sk d s1 show ?thesis by (simp add: decoder_error_def)
            next
              case l2: True
              show ?thesis
              proof (cases "skip_ws r2")
                case Nil
                with a s0 sk d s1 l2 show ?thesis by (simp add: decoder_error_def)
              next
                case (Cons d2 r3)
                note sk2 = this
                show ?thesis
                proof (cases "d2 \<noteq> cp (CHR ''}'') \<and> d2 = cp (CHR '','')")
                  case False
                  with a s0 sk d s1 l2 sk2 show ?thesis
                    by (auto simp: decoder_error_def split: if_splits)
                next
                  case True
                  show ?thesis
                  proof (cases "skip_ws r3")
                    case Nil
                    with a s0 sk d s1 l2 sk2 True show ?thesis
                      by (simp add: decoder_error_def)
                  next
                    case (Cons d3 r4)
                    show ?thesis
                    proof (cases "d3 = dquote")
                      case False
                      with a s0 sk d s1 l2 sk2 True Cons show ?thesis
                        by (simp add: decoder_error_def)
                    next
                      case dq: True
                      with a s0 sk d s1 l2 sk2 True Cons
                      have "JSONObject depth r4 (pairs @ [(key, v0)]) = Inl e" by simp
                      with "3.IH"(2)[OF s0 refl sk d s1 refl l2 sk2 _ _ Cons dq] True
                      show ?thesis by blast
                    qed
                  qed
                qed
              qed
            qed
          qed
        qed
      qed
    qed
  qed
qed

lemma json_loads_error: "json_loads depth s = Inl e \<Longrightarrow> decoder_error e"
  using scan_errors(1)[of depth "skip_ws s"]
  by (auto simp: json_loads_def decoder_error_def split: sum.splits if_splits)

subsection \<open>An input that opens with a bracket decodes to a list\<close>

lemma JSONArray_is_list: "JSONArray depth s vs = Inr (v, r) \<Longrightarrow> \<exists>xs. v = JArr xs"
proof (induction "length s" arbitrary: s vs rule: less_induct)
  case less
  note a = less.prems
  then obtain v0 r0 where s0: "scan_once depth s = Inr (v0, r0)" and l0: "length r0 < length s"
    by (auto simp: JSONArray.simps[of depth s vs] split: sum.splits if_splits)
  from a s0 l0 obtain d r' where sk: "skip_ws r0 = d # r'"
    by (auto simp: JSONArray.simps[of depth s vs] split: list.splits)
  from skip_ws_Cons_length[OF sk] have l1: "length r' < length r0" .
  show ?case
  proof (cases "d = cp (CHR '']'')")
    case True
    with a s0 l0 sk show ?thesis by (auto simp: JSONArray.simps[of depth s vs])
  next
    case False
    show ?thesis
    proof (cases "d = cp (CHR '','')")
      case True
      with a s0 l0 sk False have "JSONArray depth (skip_ws r') (vs @ [v0]) = Inr (v, r)"
        by (simp add: JSONArray.simps[of depth s vs])
      moreover have "length (skip_ws r') < length s"
        using skip_ws_length[of r'] l1 l0 by simp
      ultimately show ?thesis by (rule less.hyps[rotated])
    next
      case nc: False
      with a s0 l0 sk False show ?thesis by (simp add: JSONArray.simps[of depth s vs])
    qed
  qed
qed

lemma scan_once_bracket:
  "scan_once depth (cp (CHR ''['') # cs) = Inr (v, r) \<Longrightarrow> \<exists>xs. v = JArr xs"
  by (auto simp: scan_once.simps[of depth "91 # cs"] dquote_def
      split: list.splits if_splits dest: JSONArray_is_list)

lemma json_loads_bracket:
  "json_loads depth (cp (CHR ''['') # cs) = Inr v \<Longrightarrow> \<exists>xs. v = JArr xs"
proof -
  assume a: "json_loads depth (cp (CHR ''['') # cs) = Inr v"
  have "skip_ws (cp (CHR ''['') # cs) = cp (CHR ''['') # cs"
    by (simp add: skip_ws_def json_ws_def)
  with a obtain r where "scan_once depth (cp (CHR ''['') # cs) = Inr (v, r)"
    by (auto simp: json_loads_def split: sum.splits if_splits)
  then show ?thesis by (rule scan_once_bracket)
qed

subsection \<open>An integer literal beyond the limit of digits\<close>

lemma json_loads_long_integer:
  assumes "int_max_str_digits < n"
  shows "json_loads depth (replicate n (cp (CHR ''1''))) = Inl ValueError"
proof -
  from assms obtain m where n: "n = Suc m" by (cases n) auto
  let ?s = "cp (CHR ''1'') # replicate m (cp (CHR ''1''))"
  have d: "json_digit 49" by (simp add: json_digit_def)
  have ip: "match_int_part ?s = Some (?s, [])"
    by (auto simp: match_int_part_def d)
  have mn: "match_number ?s = Some (?s, [], [], [])"
    using ip by (simp add: match_number_def match_frac_def match_exp_def)
  have lit: "py_int_literal ?s = Inl ValueError"
    using assms by (simp add: py_int_literal_def d n)
  have "scan_once depth ?s = Inl ValueError"
    using mn lit
    by (simp add: scan_once.simps[of depth "49 # replicate m 49"] dquote_def starts_with_def
        ustr_def)
  moreover have "skip_ws ?s = ?s"
    by (simp add: skip_ws_def json_ws_def)
  moreover have "\<not> starts_with ?s [0xFEFF]"
    by (simp add: starts_with_def)
  ultimately show ?thesis by (simp add: json_loads_def n)
qed

subsection \<open>A nesting deeper than the interpreter allows\<close>

lemma scan_once_too_deep:
  "scan_once depth (replicate (Suc depth) (cp (CHR ''['')) @ rest) = Inl RecursionError"
proof (induction depth arbitrary: rest)
  case 0
  show ?case
    by (simp add: scan_once.simps[of 0 "91 # rest"] dquote_def)
next
  case (Suc depth)
  let ?t = "replicate (Suc depth) (cp (CHR ''['')) @ rest"
  have sk: "skip_ws ?t = cp (CHR ''['') # replicate depth (cp (CHR ''['')) @ rest"
    by (simp add: skip_ws_def json_ws_def)
  have "JSONArray depth ?t [] = Inl RecursionError"
    unfolding JSONArray.simps[of depth ?t "[]"] Suc.IH by simp
  then have "JSONArray depth (91 # replicate depth 91 @ rest) [] = Inl RecursionError"
    by simp
  then have "scan_once (Suc depth) (91 # 91 # replicate depth 91 @ rest) = Inl RecursionError"
    using sk
    by (simp add: scan_once.simps[of "Suc depth" "91 # 91 # replicate depth 91 @ rest"]
        dquote_def)
  then show ?case by simp
qed

lemma json_loads_too_deep:
  "json_loads depth (replicate (Suc depth) (cp (CHR ''['')) @ rest) = Inl RecursionError"
proof -
  let ?s = "replicate (Suc depth) (cp (CHR ''['')) @ rest"
  have "skip_ws ?s = ?s"
    by (simp add: skip_ws_def json_ws_def)
  moreover have "\<not> starts_with ?s [0xFEFF]"
    by (simp add: starts_with_def)
  ultimately show ?thesis
    using scan_once_too_deep[of depth rest] by (simp add: json_loads_def del: replicate_Suc)
qed

section \<open>The repair of the model's answer\<close>

lemma rev_dropWhile_rev_prefix: "\<exists>ys. u = rev (dropWhile P (rev u)) @ ys"
  using takeWhile_dropWhile_id[of P "rev u"] by (metis rev_append rev_rev_ident)

lemma re_search_array_bracket:
  "re_search_array t = Some m \<Longrightarrow> \<exists>cs. m = cp (CHR ''['') # cs"
proof -
  assume a: "re_search_array t = Some m"
  let ?u = "dropWhile (\<lambda>c. c \<noteq> 91) t"
  from a have m: "m = rev (dropWhile (\<lambda>c. c \<noteq> 93) (rev ?u))" and ne: "m \<noteq> []"
    by (auto simp: re_search_array_def Let_def split: if_splits)
  from rev_dropWhile_rev_prefix[of ?u "\<lambda>c. c \<noteq> 93"] m obtain ys where u: "?u = m @ ys"
    by auto
  with ne have "hd ?u = hd m" by simp
  moreover from u ne have "?u \<noteq> []" by auto
  then have "hd ?u = 91" using hd_dropWhile[of "\<lambda>c. c \<noteq> 91" t] by simp
  ultimately show ?thesis using ne by (cases m) auto
qed

lemma loads_inner_result:
  "loads_inner depth inner d = Inr v \<Longrightarrow> (\<exists>xs. v = JArr xs) \<or> v = d"
  by (auto simp: loads_inner_def split: sum.splits json.splits if_splits)

lemma loads_inner_error:
  "loads_inner depth inner d = Inl e \<Longrightarrow> e = ValueError \<or> e = RecursionError"
  using json_loads_error[of depth inner]
  by (auto simp: loads_inner_def decoder_error_def split: sum.splits json.splits if_splits)

text \<open>Whatever the repairer returns is a list.\<close>

lemma parse_bbox_response_is_list:
  assumes "parse_bbox_response depth raw = Inr v"
  shows "\<exists>xs. v = JArr xs"
proof (cases "json_loads depth (strip_fences raw)")
  case (Inl e)
  show ?thesis
  proof (cases "re_search_array (strip_fences raw)")
    case None
    with assms Inl show ?thesis
      by (auto simp: parse_bbox_response_def Let_def fallback_def split: if_splits)
  next
    case (Some m)
    from re_search_array_bracket[OF Some] obtain cs where m: "m = cp (CHR ''['') # cs" ..
    show ?thesis
    proof (cases "json_loads depth m")
      case inl: (Inl e')
      with assms Inl Some show ?thesis
        by (auto simp: parse_bbox_response_def Let_def fallback_def split: if_splits)
    next
      case (Inr w)
      with assms Inl Some have "v = w"
        by (auto simp: parse_bbox_response_def Let_def split: if_splits)
      with Inr m json_loads_bracket show ?thesis by blast
    qed
  qed
next
  case (Inr data)
  with assms show ?thesis
    by (auto simp: parse_bbox_response_def Let_def
        split: json.splits list.splits option.splits dest: loads_inner_result)
qed

text \<open>
  The exceptions that leave the repairer are the \<^verbatim>\<open>ValueError\<close> of an integer literal
  beyond the limit of digits and the \<^verbatim>\<open>RecursionError\<close> of a nesting deeper than the
  interpreter allows.
\<close>

lemma parse_bbox_response_error:
  assumes "parse_bbox_response depth raw = Inl e"
  shows "e = ValueError \<or> e = RecursionError"
proof (cases "json_loads depth (strip_fences raw)")
  case (Inl e1)
  show ?thesis
  proof (cases "e1 = JSONDecodeError")
    case True
    show ?thesis
    proof (cases "re_search_array (strip_fences raw)")
      case None
      with assms Inl True show ?thesis by (simp add: parse_bbox_response_def)
    next
      case (Some m)
      show ?thesis
      proof (cases "json_loads depth m")
        case inl: (Inl e2)
        from json_loads_error[OF inl] assms Inl True Some inl show ?thesis
          by (auto simp: parse_bbox_response_def decoder_error_def split: if_splits)
      next
        case (Inr w)
        with assms Inl True Some show ?thesis by (simp add: parse_bbox_response_def)
      qed
    qed
  next
    case False
    with json_loads_error[OF Inl] assms Inl show ?thesis
      by (auto simp: parse_bbox_response_def decoder_error_def)
  qed
next
  case (Inr data)
  with assms show ?thesis
    by (auto simp: parse_bbox_response_def Let_def
        split: json.splits list.splits option.splits dest: loads_inner_error)
qed

text \<open>When neither the text nor its bracketed part decodes, the result is the fallback.\<close>

lemma parse_bbox_response_fallback:
  assumes "json_loads depth (strip_fences raw) = Inl JSONDecodeError"
    and "re_search_array (strip_fences raw) = None
         \<or> (re_search_array (strip_fences raw) = Some m
              \<and> json_loads depth m = Inl JSONDecodeError)"
  shows "parse_bbox_response depth raw = Inr (fallback raw)"
  using assms by (auto simp: parse_bbox_response_def Let_def)

text \<open>When the text does not decode and its bracketed part does, that part is returned.\<close>

lemma parse_bbox_response_bracket:
  assumes "json_loads depth (strip_fences raw) = Inl JSONDecodeError"
    and "re_search_array (strip_fences raw) = Some m"
    and "json_loads depth m = Inr v"
  shows "parse_bbox_response depth raw = Inr v"
    and "\<exists>xs. v = JArr xs"
    and "spec_bracket_strategy depth raw (strip_fences raw) = Inr v"
proof -
  show r: "parse_bbox_response depth raw = Inr v"
    using assms by (simp add: parse_bbox_response_def)
  from r show l: "\<exists>xs. v = JArr xs" by (rule parse_bbox_response_is_list)
  from l assms show "spec_bracket_strategy depth raw (strip_fences raw) = Inr v"
    by (auto simp: spec_bracket_strategy_def)
qed

lemma strip_fences_replicate:
  assumes "\<not> uni_isspace c" and "c \<noteq> cp (CHR ''`'')"
  shows "strip_fences (replicate n c) = replicate n c"
proof (cases n)
  case 0
  then show ?thesis by (simp add: strip_fences_def uni_strip_def starts_with_def ustr_def)
next
  case (Suc m)
  have "uni_strip (replicate n c) = replicate n c"
    using assms(1) by (simp add: uni_strip_def)
  moreover have "\<not> starts_with (replicate n c) (ustr ''```'')"
    using assms(2) by (simp add: starts_with_def Suc ustr_def)
  ultimately show ?thesis by (simp add: strip_fences_def)
qed

lemma parse_bbox_response_long_integer:
  assumes "int_max_str_digits < n"
  shows "parse_bbox_response depth (replicate n (cp (CHR ''1''))) = Inl ValueError"
proof -
  have "strip_fences (replicate n (cp (CHR ''1''))) = replicate n (cp (CHR ''1''))"
    by (rule strip_fences_replicate) (simp_all add: uni_isspace_def)
  with json_loads_long_integer[OF assms, of depth] show ?thesis
    by (simp add: parse_bbox_response_def)
qed

text \<open>
  An answer of nothing but opening brackets, one more than the interpreter allows nested
  calls, makes the repairer raise \<^verbatim>\<open>RecursionError\<close>.
\<close>

lemma parse_bbox_response_too_deep:
  "parse_bbox_response depth (replicate (Suc depth) (cp (CHR ''[''))) = Inl RecursionError"
proof -
  have "strip_fences (replicate (Suc depth) (cp (CHR ''['')))
      = replicate (Suc depth) (cp (CHR ''[''))"
    by (rule strip_fences_replicate) (simp_all add: uni_isspace_def)
  with json_loads_too_deep[of depth "[]"] show ?thesis
    by (simp add: parse_bbox_response_def del: replicate_Suc)
qed

text \<open>An object that holds no list is returned as the only element of a list.\<close>

lemma wrap_object:
  assumes "json_loads depth (strip_fences raw) = Inr (JObj d)" and "holds_no_list depth d"
  shows "parse_bbox_response depth raw = Inr (JArr [JObj d])"
proof (cases "map_of d (ustr ''text'')")
  case None
  with assms(1) show ?thesis by (simp add: parse_bbox_response_def)
next
  case (Some t)
  show ?thesis
  proof (cases t)
    case (JStr inner)
    show ?thesis
    proof (cases "json_loads depth inner")
      case (Inl e)
      with assms(2) Some JStr have "e = JSONDecodeError"
        by (simp add: holds_no_list_def)
      with assms(1) Some JStr Inl show ?thesis
        by (simp add: parse_bbox_response_def loads_inner_def)
    next
      case (Inr p)
      with assms(2) Some JStr have "\<not> (\<exists>xs. p = JArr xs)"
        by (auto simp: holds_no_list_def)
      with assms(1) Some JStr Inr show ?thesis
        by (cases p) (simp_all add: parse_bbox_response_def loads_inner_def)
    qed
  next
    case (JArr xs)
    with assms(2) Some show ?thesis by (simp add: holds_no_list_def)
  qed (use assms(1) Some in \<open>simp_all add: parse_bbox_response_def\<close>)
qed

text \<open>
  A well-formed answer, a list of valid chunks that each carry a \<^verbatim>\<open>bbox\<close> field, is
  returned unchanged, and the fallback is one valid chunk with its \<^verbatim>\<open>parse_error\<close> set.
\<close>

lemma parse_bbox_response_well_formed:
  assumes "json_loads depth (strip_fences raw) = Inr (JArr xs)"
    and "list_all (\<lambda>x. valid_chunk x \<and> has_bbox x) xs"
  shows "parse_bbox_response depth raw = Inr (JArr xs)"
proof (cases xs)
  case Nil
  with assms show ?thesis by (simp add: parse_bbox_response_def)
next
  case (Cons x ys)
  with assms have hb: "has_bbox x" by simp
  show ?thesis
  proof (cases ys)
    case Nil
    from hb obtain d where x: "x = JObj d" and bb: "map_of d (ustr ''bbox'') \<noteq> None"
      by (auto simp: has_bbox_def split: json.splits)
    from assms Cons Nil x bb show ?thesis
      by (auto simp: parse_bbox_response_def split: option.splits json.splits)
  next
    case (Cons y zs)
    with assms \<open>xs = x # ys\<close> show ?thesis
      by (simp add: parse_bbox_response_def split: json.splits)
  qed
qed

lemma fallback_valid_chunk:
  "\<exists>c. fallback raw = JArr [c] \<and> valid_chunk c \<and> flagged c
       \<and> (case c of JObj d \<Rightarrow> map_of d (ustr ''text'') = Some (JStr raw)
                                \<and> map_of d (ustr ''bbox'') = Some JNull
           | _ \<Rightarrow> False)"
  by (simp add: fallback_def valid_chunk_def flagged_def ustr_def)

text \<open>The four examples of the specification.\<close>

lemma parse_bbox_response_examples:
  \<open>parse_bbox_response 990 (ustr ''[{"text":"A","bbox":[0,0,0.5,0.5]}]'')
     = Inr (JArr [JObj [(ustr ''text'', JStr (ustr ''A'')),
                        (ustr ''bbox'', JArr [JInt 0, JInt 0, JFloat (ustr ''0.5''),
                                              JFloat (ustr ''0.5'')])]])\<close>
  \<open>parse_bbox_response 990
      (ustr ''```'' @ [0x0A] @ ustr ''[{"text":"A","bbox":null}]'' @ [0x0A] @ ustr ''```'')
     = Inr (JArr [JObj [(ustr ''text'', JStr (ustr ''A'')), (ustr ''bbox'', JNull)]])\<close>
  \<open>parse_bbox_response 990
      (ustr ''[{"text":"[{'' @ [backslash] @ ustr ''"text'' @ [backslash] @ ustr ''":''
        @ [backslash] @ ustr ''"A'' @ [backslash] @ ustr ''",'' @ [backslash] @ ustr ''"bbox''
        @ [backslash] @ ustr ''":null}]"}]'')
     = Inr (JArr [JObj [(ustr ''text'', JStr (ustr ''A'')), (ustr ''bbox'', JNull)]])\<close>
  \<open>parse_bbox_response 990 (ustr ''hello world'')
     = Inr (JArr [JObj [(ustr ''text'', JStr (ustr ''hello world'')), (ustr ''bbox'', JNull),
                        (ustr ''parse_error'', JBool True)]])\<close>
  by code_simp+

text \<open>
  A \<^verbatim>\<open>\u\<close> escape keeps its code point, a pair of surrogates gives one code point, and two
  keys that differ in such a character stay apart.
\<close>

lemma json_loads_escapes:
  \<open>json_loads 990 (ustr ''"'' @ [backslash] @ ustr ''u4e2d'' @ [backslash] @ ustr ''ud83d''
      @ [backslash] @ ustr ''ude00"'')
     = Inr (JStr [0x4E2D, 0x1F600])\<close>
  \<open>json_loads 990 (ustr ''{"'' @ [backslash] @ ustr ''u4e2d":1,"'' @ [backslash]
      @ ustr ''u4e2e":2}'')
     = Inr (JObj [([0x4E2D], JInt 1), ([0x4E2E], JInt 2)])\<close>
  by code_simp+

text \<open>
  A number, a string and \<^verbatim>\<open>null\<close> are wrapped like an object: the result is a list, its
  element is no object.
\<close>

lemma parse_bbox_response_scalars:
  \<open>parse_bbox_response depth (ustr ''42'') = Inr (JArr [JInt 42])\<close>
  \<open>parse_bbox_response depth (ustr ''"A"'') = Inr (JArr [JStr (ustr ''A'')])\<close>
  \<open>parse_bbox_response depth (ustr ''null'') = Inr (JArr [JNull])\<close>
  by code_simp+

subsection \<open>The claims about the repairer\<close>

text \<open>
  Claim C1 says that the repairer returns for every input string, the fallback where
  every strategy fails. The \<^verbatim>\<open>except\<close> clauses catch \<^verbatim>\<open>json.JSONDecodeError\<close> only, and
  \<^verbatim>\<open>json.loads\<close> converts an integer literal with \<^verbatim>\<open>int\<close>, which raises a plain
  \<^verbatim>\<open>ValueError\<close> beyond 4300 digits: on the string of 4301 digits \<open>1\<close> the repairer
  raises, whatever depth of nesting the interpreter allows. (\<open>parse_bbox_response_too_deep\<close>
  above is a second way out of the repairer; \<open>parse_bbox_response_error\<close> and
  \<open>parse_bbox_response_fallback\<close> give the rest of the claim: no other exception leaves
  the repairer, and where both decoding attempts fail with a decode error the result is
  the fallback.)
\<close>

theorem parse_bbox_response_raises_on_long_integer:
  "parse_bbox_response depth (replicate 4301 (cp (CHR ''1''))) = Inl ValueError"
  by (rule parse_bbox_response_long_integer) (simp add: int_max_str_digits_def)

text \<open>
  Claim C2, as stated: when the text parses as JSON to a value that is neither a list
  nor an object whose \<^verbatim>\<open>text\<close> field yields a list, the repairer goes on to the bracket
  search. It does not: the answer \<^verbatim>\<open>{"a": [1]}\<close> parses to an object without a \<^verbatim>\<open>text\<close>
  field, the bracket search would return the list \<^verbatim>\<open>[1]\<close>, and the repairer returns
  the object wrapped in a list.
\<close>

theorem bracket_search_not_tried_after_parse:
  \<open>json_loads 990 (strip_fences (ustr ''{"a": [1]}''))
     = Inr (JObj [(ustr ''a'', JArr [JInt 1])])
   \<and> \<not> yields_list 990 (JObj [(ustr ''a'', JArr [JInt 1])])
   \<and> spec_bracket_strategy 990 (ustr ''{"a": [1]}'') (strip_fences (ustr ''{"a": [1]}''))
       = Inr (JArr [JInt 1])
   \<and> parse_bbox_response 990 (ustr ''{"a": [1]}'')
       = Inr (JArr [JObj [(ustr ''a'', JArr [JInt 1])]])
   \<and> parse_bbox_response 990 (ustr ''{"a": [1]}'')
       \<noteq> spec_bracket_strategy 990 (ustr ''{"a": [1]}'') (strip_fences (ustr ''{"a": [1]}''))\<close>
proof -
  have a: \<open>json_loads 990 (strip_fences (ustr ''{"a": [1]}''))
      = Inr (JObj [(ustr ''a'', JArr [JInt 1])])\<close>
    by code_simp
  have b: "\<not> yields_list 990 (JObj [(ustr ''a'', JArr [JInt 1])])"
    by code_simp
  have c: \<open>spec_bracket_strategy 990 (ustr ''{"a": [1]}'') (strip_fences (ustr ''{"a": [1]}''))
      = Inr (JArr [JInt 1])\<close>
    by code_simp
  have d: \<open>parse_bbox_response 990 (ustr ''{"a": [1]}'')
      = Inr (JArr [JObj [(ustr ''a'', JArr [JInt 1])]])\<close>
    by code_simp
  from a b c d show ?thesis by simp
qed

text \<open>
  Claim C2, amended. When the text parses as JSON to an object that holds no list (it
  has no \<^verbatim>\<open>text\<close> field, or that field is neither a list nor a string, or it is a string
  that does not decode to a list), the repairer does not go on to the bracket search: it
  returns the one-element list holding that object. The bracket search is the strategy
  for a text that does not parse as JSON: when the part from the first opening bracket
  to the last closing bracket decodes, it is a list and the repairer returns it, which is
  what steps 3 and 4 of the specification return; when there is no such part, or it does
  not decode, the repairer returns the fallback.
\<close>

theorem parse_bbox_response_wraps_object:
  "(json_loads depth (strip_fences raw) = Inr (JObj d) \<and> holds_no_list depth d \<longrightarrow>
      parse_bbox_response depth raw = Inr (JArr [JObj d]))
   \<and> (json_loads depth (strip_fences raw) = Inl JSONDecodeError
        \<and> re_search_array (strip_fences raw) = Some m \<and> json_loads depth m = Inr v \<longrightarrow>
      parse_bbox_response depth raw = Inr v \<and> (\<exists>xs. v = JArr xs)
      \<and> spec_bracket_strategy depth raw (strip_fences raw) = Inr v)
   \<and> (json_loads depth (strip_fences raw) = Inl JSONDecodeError
        \<and> (re_search_array (strip_fences raw) = None
             \<or> (re_search_array (strip_fences raw) = Some m
                  \<and> json_loads depth m = Inl JSONDecodeError)) \<longrightarrow>
      parse_bbox_response depth raw = Inr (fallback raw))"
  using wrap_object[of depth raw d] parse_bbox_response_bracket[of depth raw m v]
    parse_bbox_response_fallback[of depth raw m]
  by blast

theorem parse_bbox_response_wraps_object_witness:
  \<open>json_loads 990 (strip_fences (ustr ''{"a": [1]}''))
     = Inr (JObj [(ustr ''a'', JArr [JInt 1])])
   \<and> holds_no_list 990 [(ustr ''a'', JArr [JInt 1])]
   \<and> parse_bbox_response 990 (ustr ''{"a": [1]}'')
       = Inr (JArr [JObj [(ustr ''a'', JArr [JInt 1])]])
   \<and> json_loads 990 (strip_fences (ustr ''Page: [1] end'')) = Inl JSONDecodeError
   \<and> re_search_array (strip_fences (ustr ''Page: [1] end'')) = Some (ustr ''[1]'')
   \<and> json_loads 990 (ustr ''[1]'') = Inr (JArr [JInt 1])
   \<and> parse_bbox_response 990 (ustr ''Page: [1] end'') = Inr (JArr [JInt 1])
   \<and> json_loads 990 (strip_fences (ustr ''hello world'')) = Inl JSONDecodeError
   \<and> re_search_array (strip_fences (ustr ''hello world'')) = None
   \<and> parse_bbox_response 990 (ustr ''hello world'') = Inr (fallback (ustr ''hello world''))\<close>
proof -
  have a: \<open>json_loads 990 (strip_fences (ustr ''{"a": [1]}''))
      = Inr (JObj [(ustr ''a'', JArr [JInt 1])])\<close>
    by code_simp
  have b: "holds_no_list 990 [(ustr ''a'', JArr [JInt 1])]"
    by code_simp
  have c: "json_loads 990 (strip_fences (ustr ''Page: [1] end'')) = Inl JSONDecodeError"
    by code_simp
  have d: "re_search_array (strip_fences (ustr ''Page: [1] end'')) = Some (ustr ''[1]'')"
    by code_simp
  have e: "json_loads 990 (ustr ''[1]'') = Inr (JArr [JInt 1])"
    by code_simp
  have f: "json_loads 990 (strip_fences (ustr ''hello world'')) = Inl JSONDecodeError"
    by code_simp
  have g: "re_search_array (strip_fences (ustr ''hello world'')) = None"
    by code_simp
  from a b c d e f g
    parse_bbox_response_wraps_object
      [of 990 \<open>ustr ''{"a": [1]}''\<close> "[(ustr ''a'', JArr [JInt 1])]"]
    parse_bbox_response_wraps_object
      [of 990 "ustr ''Page: [1] end''" _ "ustr ''[1]''" "JArr [JInt 1]"]
    parse_bbox_response_wraps_object [of 990 "ustr ''hello world''"]
  show ?thesis by simp
qed

text \<open>
  Claim C3 says that every element of every result of the repairer is a valid chunk,
  and that no element is anything but an object. The repairer returns what it decoded
  without looking at the elements: the answer \<^verbatim>\<open>[1]\<close> is returned as the list holding
  the number 1, against the return type \<^verbatim>\<open>list[dict]\<close> of the function, and the page loop
  of \<^verbatim>\<open>main\<close>, which calls \<^verbatim>\<open>r.get\<close> on every element, stops with an \<^verbatim>\<open>AttributeError\<close>.
  (\<open>parse_bbox_response_is_list\<close>, \<open>fallback_valid_chunk\<close> and
  \<open>parse_bbox_response_well_formed\<close> above give what holds of the claim: every result is
  a list, the fallback is one valid chunk with its \<^verbatim>\<open>parse_error\<close> set, and a well-formed
  answer is returned as it is.)
\<close>

theorem parse_bbox_response_returns_non_object:
  "parse_bbox_response (Suc depth) (ustr ''[1]'') = Inr (JArr [JInt 1])
   \<and> \<not> list_all valid_chunk [JInt 1]
   \<and> json_page (Suc depth) label (ustr ''[1]'') = Inl AttributeError"
  by code_simp

section \<open>The JSON document\<close>

text \<open>
  On the strings below 256 the normalizer of the page loop is the normalizer of the
  section on fill zones.
\<close>

lemma uni_normalize_fill_zones_ustr:
  "uni_normalize_fill_zones (ustr s) = ustr (normalize_fill_zones s)"
proof (induction s rule: normalize_fill_zones.induct)
  case 1
  show ?case by (simp add: ustr_def)
next
  case (2 c cs)
  have fc: "uni_fill_char (cp c) = fill_char c"
    by (simp only: uni_fill_char_def fill_char_def of_char_eq_iff)
  have tw: "takeWhile (\<lambda>d. d = cp c) (ustr cs) = ustr (takeWhile (\<lambda>d. d = c) cs)"
    by (simp add: ustr_def takeWhile_map comp_def)
  have dw: "dropWhile (\<lambda>d. d = cp c) (ustr cs) = ustr (dropWhile (\<lambda>d. d = c) cs)"
    by (simp add: ustr_def dropWhile_map comp_def)
  have ld: "length (takeWhile (\<lambda>d. d = cp c) (ustr cs)) = lead c cs"
    unfolding tw by (simp add: lead_def ustr_def)
  have cons: "ustr (c # cs) = cp c # ustr cs"
    by (simp add: ustr_def)
  have app: "ustr (''___'' @ normalize_fill_zones (dropWhile (\<lambda>d. d = c) cs))
      = ustr ''___'' @ ustr (normalize_fill_zones (dropWhile (\<lambda>d. d = c) cs))"
    by (simp add: ustr_def)
  show ?case
  proof (cases "fill_char c \<and> 3 \<le> lead c cs")
    case True
    have "uni_normalize_fill_zones (cp c # ustr cs)
        = ustr ''___'' @ uni_normalize_fill_zones (ustr (dropWhile (\<lambda>d. d = c) cs))"
      unfolding uni_normalize_fill_zones.simps(2)[of "cp c" "ustr cs"] fc ld dw if_P[OF True]
      by (rule refl)
    also have "\<dots> = ustr ''___'' @ ustr (normalize_fill_zones (dropWhile (\<lambda>d. d = c) cs))"
      using "2.IH"(1)[OF True] by simp
    also have "\<dots> = ustr (normalize_fill_zones (c # cs))"
      unfolding normalize_fill_zones.simps(2)[of c cs] if_P[OF True] app by (rule refl)
    finally show ?thesis unfolding cons .
  next
    case False
    have "uni_normalize_fill_zones (cp c # ustr cs) = cp c # uni_normalize_fill_zones (ustr cs)"
      unfolding uni_normalize_fill_zones.simps(2)[of "cp c" "ustr cs"] fc ld if_not_P[OF False]
      by (rule refl)
    also have "\<dots> = cp c # ustr (normalize_fill_zones cs)"
      using "2.IH"(2)[OF False] by simp
    also have "\<dots> = ustr (normalize_fill_zones (c # cs))"
      unfolding normalize_fill_zones.simps(2)[of c cs] if_not_P[OF False]
      by (simp add: ustr_def)
    finally show ?thesis unfolding cons .
  qed
qed

text \<open>
  A region that is not an object stops the page loop of \<^verbatim>\<open>main\<close> with an
  \<^verbatim>\<open>AttributeError\<close>; the regions of a well-formed answer get their text normalized.
\<close>

lemma json_page_examples:
  \<open>json_page 990 (ustr ''page 1'') (ustr ''42'') = Inl AttributeError\<close>
  \<open>json_page 990 (ustr ''page 1'') (ustr ''[{"text":"Name.....","bbox":null}]'')
     = Inr \<lparr>source = ustr ''page 1'',
            regions = [JObj [(ustr ''text'', JStr (ustr ''Name___'')), (ustr ''bbox'', JNull)]]\<rparr>\<close>
  by code_simp+

text \<open>
  Claim C9. For the \<^verbatim>\<open>json\<close> format, one page result is written as the bare JSON array
  of its chunks, without the \<^verbatim>\<open>source\<close>/\<^verbatim>\<open>regions\<close> envelope; two or more page results
  are written as the JSON array of their \<^verbatim>\<open>{source, regions}\<close> objects, in the order of
  the page results.
\<close>

theorem json_document_assembly:
  "main_json_output dumps [r] = dumps (JArr (regions r))
   \<and> (2 \<le> length rs \<longrightarrow>
        main_json_output dumps rs = dumps (JArr (map page_json rs))
        \<and> length (map page_json rs) = length rs
        \<and> (\<forall>i<length rs. map page_json rs ! i
              = JObj [(ustr ''source'', JStr (source (rs ! i))),
                      (ustr ''regions'', JArr (regions (rs ! i)))]))"
  by (auto simp: main_json_output_def json_document_def page_json_def)

theorem json_document_assembly_witness:
  "(2::nat) \<le> length [\<lparr>source = ustr ''page 1'', regions = [JNull]\<rparr>,
                      \<lparr>source = ustr ''page 2'', regions = []\<rparr>]
   \<and> main_json_output (\<lambda>j. if j = JArr [] then ustr ''[]'' else ustr ''other'')
       [\<lparr>source = ustr ''page 1'', regions = [JNull]\<rparr>,
        \<lparr>source = ustr ''page 2'', regions = []\<rparr>]
       = (\<lambda>j. if j = JArr [] then ustr ''[]'' else ustr ''other'')
           (JArr [JObj [(ustr ''source'', JStr (ustr ''page 1'')), (ustr ''regions'', JArr [JNull])],
                  JObj [(ustr ''source'', JStr (ustr ''page 2'')), (ustr ''regions'', JArr [])]])
   \<and> main_json_output (\<lambda>j. if j = JArr [] then ustr ''[]'' else ustr ''other'')
       [\<lparr>source = ustr ''page 2'', regions = []\<rparr>] = ustr ''[]''"
  using json_document_assembly
    [of "\<lambda>j. if j = JArr [] then ustr ''[]'' else ustr ''other''"
        "\<lparr>source = ustr ''page 2'', regions = []\<rparr>"
        "[\<lparr>source = ustr ''page 1'', regions = [JNull]\<rparr>,
          \<lparr>source = ustr ''page 2'', regions = []\<rparr>]"]
  by (simp add: page_json_def)

end
